theory Spec2Isabelle
  imports
    Complex_Main
    "HOL-Library.Product_Lexorder"
    "HOL-Library.Multiset"
    "HOL-Library.AList"
    "HOL-Library.Char_ord"
    "HOL-Library.List_Lexorder"
begin

section \<open>Data model\<close>

text \<open>
  A Python \<^verbatim>\<open>str\<close> is a sequence of code points, so a text is a list of code points
  (\<^typ>\<open>nat\<close>); offsets are Python integers. Marker identifiers and family names are
  ASCII strings (\<^verbatim>\<open>str.upper\<close> is modelled on ASCII letters only). Scores are Python
  floats; every finite float is a rational number and the resolver only compares scores, so
  they are modelled as reals. Arithmetic on scores (the quotient and the rounding of a
  composed score, the halving of a declared score, the subtraction \<^verbatim>\<open>score - 0.1\<close>) is
  exact here, where the code's float result can differ in the last binary digit: the float
  \<^verbatim>\<open>0.8 - 0.1\<close> is \<^verbatim>\<open>0.7000000000000001\<close>, and \<^verbatim>\<open>round(1/80, 3)\<close> is \<^verbatim>\<open>0.013\<close> on the
  float but \<^verbatim>\<open>0.012\<close> on the exact tie.
\<close>

type_synonym pystr = "nat list"

definition str :: "string \<Rightarrow> pystr" where
  "str s = map of_char s"

text \<open>
  The annotation dictionaries of \<^verbatim>\<open>sem_core.py\<close>
  (\<^verbatim>\<open>{"marker_id", "family", "start", "end", "score"}\<close>).
\<close>

record annotation =
  ann_marker_id :: string
  ann_family :: string
  ann_start :: int
  ann_end :: int
  ann_score :: real

text \<open>The weights file; only \<^verbatim>\<open>weights["composed"]\<close> is ever read.\<close>

record weights =
  composed_min_children :: "int option"
  composed_min_score :: "real option"

section \<open>Overlap resolution (\<^verbatim>\<open>sem_core.resolve_overlaps\<close>)\<close>

definition FAMILY_ORDER :: "string \<Rightarrow> int option" where
  "FAMILY_ORDER f =
     (if f = ''SEM'' then Some 0
      else if f = ''CLU'' then Some 1
      else if f = ''ATO'' then Some 2
      else if f = ''MEMA'' then Some 3
      else if f = ''DEESC'' then Some 4
      else None)"

definition family_rank :: "annotation \<Rightarrow> int" where
  "family_rank a = (case FAMILY_ORDER (ann_family a) of Some r \<Rightarrow> r | None \<Rightarrow> 9)"

text \<open>\<^verbatim>\<open>not (current["end"] <= existing["start"] or current["start"] >= existing["end"])\<close>\<close>

definition overlaps :: "annotation \<Rightarrow> annotation \<Rightarrow> bool" where
  "overlaps current existing \<longleftrightarrow>
     \<not> (ann_end current \<le> ann_start existing \<or> ann_start current \<ge> ann_end existing)"

text \<open>The priority test under which the current hit replaces the kept one.\<close>

definition current_wins :: "annotation \<Rightarrow> annotation \<Rightarrow> bool" where
  "current_wins current existing \<longleftrightarrow>
     (let cur_family_rank = family_rank current;
          existing_family_rank = family_rank existing
      in cur_family_rank < existing_family_rank
         \<or> (cur_family_rank = existing_family_rank
              \<and> ann_score current > ann_score existing)
         \<or> (cur_family_rank = existing_family_rank
              \<and> ann_score current = ann_score existing
              \<and> (ann_end current - ann_start current) > (ann_end existing - ann_start existing)))"

text \<open>
  One iteration of the outer loop: scan \<^verbatim>\<open>kept\<close> for the first overlapping entry; replace
  it in place when the current hit wins, leave it when it does not; append the current hit
  when nothing overlaps.
\<close>

fun place :: "annotation \<Rightarrow> annotation list \<Rightarrow> annotation list" where
  "place current [] = [current]"
| "place current (existing # kept) =
     (if overlaps current existing
      then (if current_wins current existing then current # kept else existing # kept)
      else existing # place current kept)"

definition sort_position :: "annotation list \<Rightarrow> annotation list" where
  "sort_position anns = sort_key (\<lambda>a. (ann_start a, - (ann_end a - ann_start a))) anns"

definition resolve_overlaps :: "annotation list \<Rightarrow> weights \<Rightarrow> annotation list" where
  "resolve_overlaps anns w = foldl (\<lambda>kept current. place current kept) [] (sort_position anns)"

text \<open>No entry of the list overlaps a later one.\<close>

fun disjoint_list :: "annotation list \<Rightarrow> bool" where
  "disjoint_list [] = True"
| "disjoint_list (k # ks) = (list_all (\<lambda>e. \<not> overlaps k e) ks \<and> disjoint_list ks)"

section \<open>Sentence segmentation (\<^verbatim>\<open>sem_core.sentence_boundaries\<close>)\<close>

definition enders :: "nat list" where
  "enders = [46, 33, 63, 8230]"

definition closing_chars :: "nat list" where
  "closing_chars = [34, 187, 92, 39, 34, 41, 92, 93, 125]"

definition isspace :: "nat \<Rightarrow> bool" where
  "isspace c \<longleftrightarrow>
     (9 \<le> c \<and> c \<le> 13) \<or> (28 \<le> c \<and> c \<le> 32) \<or> c = 133 \<or> c = 160 \<or> c = 5760
     \<or> (8192 \<le> c \<and> c \<le> 8202) \<or> c = 8232 \<or> c = 8233 \<or> c = 8239 \<or> c = 8287
     \<or> c = 12288"

function skip_closing :: "pystr \<Rightarrow> nat \<Rightarrow> nat" where
  "skip_closing text j =
     (if j < length text \<and> text ! j \<in> set closing_chars
      then skip_closing text (j + 1) else j)"
  by pat_completeness auto
termination
  by (relation "measure (\<lambda>(text, j). length text - j)") auto

declare skip_closing.simps [simp del]

function sentence_loop ::
  "pystr \<Rightarrow> nat \<Rightarrow> nat \<Rightarrow> (int \<times> int) list \<Rightarrow> (int \<times> int) list \<times> nat" where
  "sentence_loop text i start out =
     (if i < length text then
        (let ch = text ! i;
             j = skip_closing text (i + 1)
         in if ch \<in> set enders \<and> (j \<ge> length text \<or> isspace (text ! j))
            then sentence_loop text j j (out @ [(int start, int j)])
            else if ch = 10 \<and> i + 1 < length text \<and> (text ! (i + 1) = 10 \<or> text ! (i + 1) = 13)
            then sentence_loop text (i + 1) (i + 1) (out @ [(int start, int i)])
            else sentence_loop text (i + 1) start out)
      else (out, start))"
  by pat_completeness auto

termination
proof (relation "measure (\<lambda>(text, i, start, out). length text - i)", goal_cases)
  case 1
  show ?case by simp
next
  case (2 t i start out ch j)
  have "k \<le> skip_closing t k" for k
    by (induction t k rule: skip_closing.induct) (subst skip_closing.simps, auto)
  then have "i + 1 \<le> skip_closing t (i + 1)" .
  with 2 show ?case by auto
next
  case 3
  then show ?case by auto
next
  case 4
  then show ?case by auto
qed

declare sentence_loop.simps [simp del]

definition sentence_boundaries :: "pystr \<Rightarrow> (int \<times> int) list" where
  "sentence_boundaries text =
     (case sentence_loop text 0 0 [] of
        (out, start) \<Rightarrow> if start < length text then out @ [(int start, int (length text))] else out)"


section \<open>Atomic detection (\<^verbatim>\<open>sem_core.detect_atomics\<close>)\<close>

text \<open>
  A compiled \<^verbatim>\<open>re.Pattern\<close>. The regular-expression engine is not part of the repository;
  a pattern is given by what the two methods the code calls return:
  \<^verbatim>\<open>[m.span() for m in p.finditer(text)]\<close> and \<^verbatim>\<open>bool(p.fullmatch(s))\<close>.
\<close>

record regex =
  rx_finditer :: "pystr \<Rightarrow> (int \<times> int) list"
  rx_fullmatch :: "pystr \<Rightarrow> bool"

text \<open>The engine's contract on one text: every reported span lies inside the text.\<close>

definition spans_within :: "regex \<Rightarrow> pystr \<Rightarrow> bool" where
  "spans_within p t =
     list_all (\<lambda>(s, e). 0 \<le> s \<and> s \<le> e \<and> e \<le> int (length t)) (rx_finditer p t)"

text \<open>\<^verbatim>\<open>text[start:end]\<close> for non-negative offsets.\<close>

definition py_slice :: "pystr \<Rightarrow> int \<Rightarrow> int \<Rightarrow> pystr" where
  "py_slice t s e = take (nat e - nat s) (drop (nat s) t)"

definition should_demote_match :: "pystr \<Rightarrow> int \<Rightarrow> int \<Rightarrow> regex list \<Rightarrow> bool" where
  "should_demote_match t start end' demote_patterns =
     (if demote_patterns = [] then False
      else if list_ex (\<lambda>pattern. rx_fullmatch pattern (py_slice t start end')) demote_patterns
      then True
      else list_ex (\<lambda>pattern.
             list_ex (\<lambda>(demote_start, demote_end).
                        \<not> (demote_end \<le> start \<or> demote_start \<ge> end'))
                     (rx_finditer pattern t))
           demote_patterns)"

text \<open>Upper-casing of an ASCII letter: \<^verbatim>\<open>a\<close>..\<^verbatim>\<open>z\<close> lose bit 5 (that is, 32).\<close>

definition ascii_upper :: "char \<Rightarrow> char" where
  "ascii_upper c =
     (let n = (of_char c :: nat)
      in if 97 \<le> n \<and> n \<le> 122
         then (case c of Char b0 b1 b2 b3 b4 b5 b6 b7 \<Rightarrow> Char b0 b1 b2 b3 b4 False b6 b7)
         else c)"

text \<open>\<^verbatim>\<open>marker_id.split("_", 1)[0].upper()\<close> (identifiers are ASCII).\<close>

definition family_of_id :: "string \<Rightarrow> string" where
  "family_of_id marker_id = map ascii_upper (takeWhile (\<lambda>c. c \<noteq> CHR ''_'') marker_id)"

definition atomic_hit :: "string \<Rightarrow> int \<Rightarrow> int \<Rightarrow> annotation" where
  "atomic_hit marker_id start end' =
     \<lparr>ann_marker_id = marker_id, ann_family = family_of_id marker_id,
      ann_start = start, ann_end = end', ann_score = 1\<rparr>"

definition pattern_hits :: "pystr \<Rightarrow> string \<Rightarrow> regex list \<Rightarrow> regex \<Rightarrow> annotation list" where
  "pattern_hits t marker_id demote_patterns pattern =
     List.map_filter
       (\<lambda>(start, end').
          if end' \<le> start then None
          else if should_demote_match t start end' demote_patterns then None
          else Some (atomic_hit marker_id start end'))
       (rx_finditer pattern t)"

type_synonym rx_index = "(string \<times> regex list \<times> regex list) list"

definition detect_atomics :: "pystr \<Rightarrow> rx_index \<Rightarrow> annotation list" where
  "detect_atomics t rx_index =
     sort_key (\<lambda>a. (ann_start a, - ann_end a))
       (concat (map (\<lambda>(marker_id, patterns, demote_patterns).
                       concat (map (pattern_hits t marker_id demote_patterns) patterns))
                    rx_index))"

section \<open>Activation formulas (\<^verbatim>\<open>sem_core._eval\<close>, \<^verbatim>\<open>sem_core.eval_activation\<close>)\<close>

text \<open>
  The \<^verbatim>\<open>ast\<close> nodes the evaluator distinguishes. \<^verbatim>\<open>OtherCmp\<close> stands for a comparison
  operator that is not a key of \<^verbatim>\<open>OPS\<close> (\<^verbatim>\<open>in\<close>, \<^verbatim>\<open>is\<close>, ...), \<^verbatim>\<open>Unsupported\<close> for every
  other node class. Values are numbers; a Python \<^verbatim>\<open>bool\<close> is the integer 0 or 1.
\<close>

datatype cmpop = Gt | GtE | Lt | LtE | Eq | NotEq | OtherCmp

datatype expr =
    BoolOr "expr list"
  | BoolAnd "expr list"
  | Compare expr "(cmpop \<times> expr) list"
  | UnaryNot expr
  | Name string
  | Constant real
  | Unsupported

type_synonym env = "string \<Rightarrow> real option"

definition OPS :: "cmpop \<Rightarrow> (real \<Rightarrow> real \<Rightarrow> bool) option" where
  "OPS op = (case op of
       Gt \<Rightarrow> Some (\<lambda>a b. a > b)
     | GtE \<Rightarrow> Some (\<lambda>a b. a \<ge> b)
     | Lt \<Rightarrow> Some (\<lambda>a b. a < b)
     | LtE \<Rightarrow> Some (\<lambda>a b. a \<le> b)
     | Eq \<Rightarrow> Some (\<lambda>a b. a = b)
     | NotEq \<Rightarrow> Some (\<lambda>a b. a \<noteq> b)
     | OtherCmp \<Rightarrow> None)"

definition truthy :: "real \<Rightarrow> bool" where
  "truthy v \<longleftrightarrow> v \<noteq> 0"

text \<open>\<^verbatim>\<open>None\<close> is a raised exception (\<^verbatim>\<open>ValueError\<close>, \<^verbatim>\<open>KeyError\<close>).\<close>

fun eval_node :: "expr \<Rightarrow> env \<Rightarrow> real option"
  and eval_values :: "expr list \<Rightarrow> env \<Rightarrow> real list option"
  and eval_compare :: "real \<Rightarrow> (cmpop \<times> expr) list \<Rightarrow> env \<Rightarrow> real option" where
  "eval_node (BoolOr vs) env =
     (case eval_values vs env of None \<Rightarrow> None | Some vals \<Rightarrow> Some (of_bool (list_ex truthy vals)))"
| "eval_node (BoolAnd vs) env =
     (case eval_values vs env of None \<Rightarrow> None | Some vals \<Rightarrow> Some (of_bool (list_all truthy vals)))"
| "eval_node (Compare left' rest) env =
     (case eval_node left' env of None \<Rightarrow> None | Some l \<Rightarrow> eval_compare l rest env)"
| "eval_node (UnaryNot operand) env =
     (case eval_node operand env of None \<Rightarrow> None | Some v \<Rightarrow> Some (of_bool (\<not> truthy v)))"
| "eval_node (Name n) env = Some (case env n of Some v \<Rightarrow> v | None \<Rightarrow> 0)"
| "eval_node (Constant c) env = Some c"
| "eval_node Unsupported env = None"
| "eval_values [] env = Some []"
| "eval_values (v # vs) env =
     (case eval_node v env of None \<Rightarrow> None
      | Some x \<Rightarrow> (case eval_values vs env of None \<Rightarrow> None | Some xs \<Rightarrow> Some (x # xs)))"
| "eval_compare l [] env = Some 1"
| "eval_compare l ((op, right') # rest) env =
     (case eval_node right' env of None \<Rightarrow> None
      | Some r \<Rightarrow>
          (case OPS op of None \<Rightarrow> None
           | Some f \<Rightarrow> if \<not> f l r then Some 0 else eval_compare r rest env))"

text \<open>
  The activation string of a marker, as \<^verbatim>\<open>eval_activation\<close> sees it: empty (or null),
  rejected by \<^verbatim>\<open>ast.parse\<close>, or parsed to a tree (after the textual replacement of
  \<^verbatim>\<open>&&\<close> and \<^verbatim>\<open>||\<close>).
\<close>

datatype activation = EmptyExpr | SyntaxError | Parsed expr

definition eval_activation :: "activation \<Rightarrow> env \<Rightarrow> bool" where
  "eval_activation a env =
     (case a of
        EmptyExpr \<Rightarrow> True
      | SyntaxError \<Rightarrow> False
      | Parsed tree \<Rightarrow> (case eval_node tree env of None \<Rightarrow> False | Some result \<Rightarrow> truthy result))"


section \<open>Span policies\<close>

function sentence_union_loop :: "int \<Rightarrow> int \<Rightarrow> nat \<Rightarrow> int \<Rightarrow> int \<Rightarrow> int \<times> int" where
  "sentence_union_loop N need step iL iR =
     (if need > 0 \<and> (iL > 0 \<or> iR < N - 1) then
        (if step mod 2 = 0 \<and> iR < N - 1
         then sentence_union_loop N (need - 1) (step + 1) iL (iR + 1)
         else if iL > 0
         then sentence_union_loop N (need - 1) (step + 1) (iL - 1) iR
         else sentence_union_loop N (need - 1) (step + 1) iL iR)
      else (iL, iR))"
  by pat_completeness auto
termination
  by (relation "measure (\<lambda>(N, need, step, iL, iR). nat need)") auto

declare sentence_union_loop.simps [simp del]

definition sentence_union :: "(int \<times> int) list \<Rightarrow> int \<Rightarrow> int \<Rightarrow> int \<Rightarrow> int \<times> int" where
  "sentence_union sentences iL iR max_sent =
     (let need = max 1 max_sent - (iR - iL + 1)
      in case sentence_union_loop (int (length sentences)) need 0 iL iR of
           (iL', iR') \<Rightarrow> (fst (sentences ! nat iL'), snd (sentences ! nat iR')))"

text \<open>\<^verbatim>\<open>text.rfind(ch, 0, end)\<close> and \<^verbatim>\<open>text.find(ch, start)\<close> for non-negative offsets.\<close>

definition py_rfind :: "pystr \<Rightarrow> nat \<Rightarrow> int \<Rightarrow> int" where
  "py_rfind t ch end' =
     (case rev (filter (\<lambda>i. t ! i = ch) [0..<min (nat end') (length t)]) of
        [] \<Rightarrow> - 1 | i # _ \<Rightarrow> int i)"

definition py_find :: "pystr \<Rightarrow> nat \<Rightarrow> int \<Rightarrow> int" where
  "py_find t ch start =
     (case filter (\<lambda>i. t ! i = ch) [nat start..<length t] of
        [] \<Rightarrow> - 1 | i # _ \<Rightarrow> int i)"

definition clause_union :: "pystr \<Rightarrow> int \<Rightarrow> int \<Rightarrow> int \<times> int" where
  "clause_union t start end' =
     (let text_len = int (length t);
          left_comma = py_rfind t 44 start;
          left_semi = py_rfind t 59 start;
          left_bound = max left_comma left_semi;
          start1 = (if left_bound \<ge> 0 then left_bound + 1 else start);
          right_comma = py_find t 44 end';
          right_semi = py_find t 59 end';
          right_bounds = filter (\<lambda>x. x \<noteq> - 1) [right_comma, right_semi];
          end1 = (if right_bounds \<noteq> [] then Min (set right_bounds) else end')
      in (max 0 start1, min text_len end1))"

text \<open>
  A \<^verbatim>\<open>span_policy\<close> dictionary; \<^verbatim>\<open>None\<close> is an absent key (the empty dictionary has
  every key absent).
\<close>

record span_policy =
  sp_mode :: "string option"
  sp_max_sentence_span :: "int option"
  sp_window_tokens :: "(int \<times> int) option"

text \<open>First index whose sentence contains the position (\<^verbatim>\<open>get_sentence_idx\<close>).\<close>

fun get_sentence_idx :: "(int \<times> int) list \<Rightarrow> int \<Rightarrow> nat option" where
  "get_sentence_idx [] pos = None"
| "get_sentence_idx ((sent_start, sent_end) # rest) pos =
     (if sent_start \<le> pos \<and> pos < sent_end then Some 0
      else map_option Suc (get_sentence_idx rest pos))"

text \<open>
  The value a loop variable holds after \<^verbatim>\<open>for i, x in enumerate(xs): if P(x): v = i\<close>,
  starting from \<^verbatim>\<open>v = d\<close>.
\<close>

definition last_index_where :: "('a \<Rightarrow> bool) \<Rightarrow> 'a list \<Rightarrow> int \<Rightarrow> int" where
  "last_index_where P xs d = foldl (\<lambda>v (i, x). if P x then int i else v) d (enumerate 0 xs)"

definition apply_span_policy ::
  "span_policy \<Rightarrow> pystr \<Rightarrow> (int \<times> int) list \<Rightarrow> int \<Rightarrow> int \<Rightarrow> int \<times> int" where
  "apply_span_policy policy t sentences start end' =
     (let mode = (case sp_mode policy of Some m \<Rightarrow> m | None \<Rightarrow> ''anchor_window'')
      in if mode = ''sentence_union'' then
           (let mid = (start + end') div 2
            in case get_sentence_idx sentences mid of
                 None \<Rightarrow> (start, end')
               | Some sent_idx \<Rightarrow>
                   (let iL = last_index_where
                               (\<lambda>(s_start, s_end). s_start \<le> start \<and> start < s_end)
                               sentences (int sent_idx);
                        iR = last_index_where
                               (\<lambda>(s_start, s_end). s_start < end' \<and> end' \<le> s_end)
                               sentences (int sent_idx);
                        max_sentences =
                          (case sp_max_sentence_span policy of Some m \<Rightarrow> m | None \<Rightarrow> 1)
                    in sentence_union sentences iL iR max_sentences))
         else if mode = ''clause_union'' then clause_union t start end'
         else
           (let window = (case sp_window_tokens policy of Some w \<Rightarrow> w | None \<Rightarrow> (- 8, 8));
                chars_per_token = 4;
                left_expand = fst window * chars_per_token;
                right_expand = snd window * chars_per_token;
                new_start = max 0 (start + left_expand);
                new_end = min (int (length t)) (end' + right_expand)
            in (new_start, new_end)))"

section \<open>Composition (\<^verbatim>\<open>sem_core.compose\<close>)\<close>

text \<open>
  A record of \<^verbatim>\<open>markers_canonical.ld35.json\<close> as \<^verbatim>\<open>sem_core\<close> reads it. An optional
  field is \<^verbatim>\<open>None\<close> when its key is absent. A pattern that \<^verbatim>\<open>re.compile\<close> rejects is
  \<^verbatim>\<open>None\<close>. \<^verbatim>\<open>m_composed_of\<close> holds each child's id and weight (1.0 when not given).
  \<^verbatim>\<open>m_min_children\<close> and \<^verbatim>\<open>m_min_score\<close> are keys a bundle may carry.
\<close>

record marker =
  m_id :: string
  m_kind :: string
  m_detects :: "regex option list"
  m_demote_if :: "regex option list"
  m_composed_of :: "(string \<times> real) list"
  m_activation :: "activation option"
  m_span_policy :: "span_policy option"
  m_min_children :: "int option"
  m_min_score :: "real option"

record canon =
  atomics :: "marker list"
  composed :: "marker list"

definition Canon :: "marker list \<Rightarrow> canon" where
  "Canon markers =
     \<lparr>atomics = filter (\<lambda>m. m_kind m = ''atomic'') markers,
      composed = filter (\<lambda>m. m_kind m = ''composed'') markers\<rparr>"

text \<open>The patterns that compile, in order.\<close>

definition compiled :: "regex option list \<Rightarrow> regex list" where
  "compiled ps = List.map_filter (\<lambda>p. p) ps"

definition compile_atomic_regex :: "canon \<Rightarrow> rx_index" where
  "compile_atomic_regex c =
     foldl (\<lambda>rx m. AList.update (m_id m) (compiled (m_detects m), compiled (m_demote_if m)) rx)
           [] (atomics c)"

definition mid_of :: "annotation \<Rightarrow> int" where
  "mid_of a = (ann_start a + ann_end a) div 2"

definition per_sentence :: "(int \<times> int) list \<Rightarrow> annotation list \<Rightarrow> annotation list list" where
  "per_sentence sentences atomic_hits =
     map (\<lambda>k. filter (\<lambda>a. get_sentence_idx sentences (mid_of a) = Some k) atomic_hits)
         [0..<length sentences]"

definition default_activation :: activation where
  "default_activation = Parsed (Compare (Name ''total_children'') [(GtE, Constant 1)])"

definition default_span_policy :: span_policy where
  "default_span_policy =
     \<lparr>sp_mode = Some ''sentence_union'', sp_max_sentence_span = Some 1, sp_window_tokens = None\<rparr>"

text \<open>The \<^verbatim>\<open>counts\<close> dictionary of one window, in insertion order.\<close>

definition window_counts :: "string list \<Rightarrow> annotation list \<Rightarrow> (string \<times> int) list" where
  "window_counts needed_ids window_atomics =
     (let counts0 = foldl (\<lambda>c cid. AList.update cid 0 c) [] needed_ids;
          counts1 = foldl (\<lambda>c a. AList.map_entry (ann_marker_id a) (\<lambda>v. v + 1) c)
                          counts0 window_atomics
      in AList.update ''total_children'' (sum_list (map snd counts1)) counts1)"

definition counts_env :: "(string \<times> int) list \<Rightarrow> env" where
  "counts_env counts = map_of (map (\<lambda>(k, v). (k, real_of_int v)) counts)"

text \<open>\<^verbatim>\<open>round(score, 3)\<close>, on the real value: the nearest multiple of 1/1000, ties to even.\<close>

definition py_round3 :: "real \<Rightarrow> real" where
  "py_round3 x =
     (let y = x * 1000; f = \<lfloor>y\<rfloor>; d = y - of_int f
      in of_int (if d < 1 / 2 then f else if d > 1 / 2 then f + 1
                 else if even f then f else f + 1) / 1000)"

text \<open>The atomic hits of the sentences \<^verbatim>\<open>i0 .. iR\<close> of a window.\<close>

definition window_atomics ::
  "(int \<times> int) list \<Rightarrow> annotation list list \<Rightarrow> nat \<Rightarrow> int \<Rightarrow> annotation list" where
  "window_atomics sentences per_sent i0 window_size =
     (let iR = nat (min (int (length sentences) - 1) (int i0 + window_size - 1))
      in concat (map (\<lambda>k. per_sent ! k) [i0..<iR + 1]))"

definition window_hit ::
  "pystr \<Rightarrow> (int \<times> int) list \<Rightarrow> annotation list list \<Rightarrow> marker \<Rightarrow> nat \<Rightarrow> int
     \<Rightarrow> annotation option" where
  "window_hit t sentences per_sent m i0 window_size =
     (let marker_id = m_id m;
          activation_expr = (case m_activation m of Some a \<Rightarrow> a | None \<Rightarrow> default_activation);
          policy = (case m_span_policy m of Some p \<Rightarrow> p | None \<Rightarrow> default_span_policy);
          weights_map = foldl (\<lambda>wm (child_id, weight). AList.update child_id weight wm)
                              [] (m_composed_of m);
          needed_ids = map fst (m_composed_of m);
          iR = nat (min (int (length sentences) - 1) (int i0 + window_size - 1));
          counts = window_counts needed_ids (window_atomics sentences per_sent i0 window_size)
      in if map_of counts ''total_children'' = Some 0 then None
         else if eval_activation activation_expr (counts_env counts) then
           (let present_weight =
                  sum_list (map (\<lambda>(k, v). the (map_of weights_map k))
                                (filter (\<lambda>(k, v). map_of weights_map k \<noteq> None \<and> v > 0) counts));
                total = sum_list (map snd weights_map);
                total_weight = (if total = 0 then 1 else total);
                score = present_weight / total_weight;
                window_start = fst (sentences ! i0);
                window_end = snd (sentences ! iR);
                final = apply_span_policy policy t sentences window_start window_end
            in Some \<lparr>ann_marker_id = marker_id, ann_family = family_of_id marker_id,
                      ann_start = fst final, ann_end = snd final, ann_score = py_round3 score\<rparr>)
         else None)"

text \<open>The first window size that yields a hit (the \<^verbatim>\<open>break\<close>).\<close>

fun first_hit :: "('a \<Rightarrow> 'b option) \<Rightarrow> 'a list \<Rightarrow> 'b option" where
  "first_hit f [] = None"
| "first_hit f (x # xs) = (case f x of Some y \<Rightarrow> Some y | None \<Rightarrow> first_hit f xs)"

definition compose_marker ::
  "pystr \<Rightarrow> (int \<times> int) list \<Rightarrow> annotation list list \<Rightarrow> marker \<Rightarrow> annotation list" where
  "compose_marker t sentences per_sent m =
     (if m_composed_of m = [] then []
      else
        (let policy = (case m_span_policy m of Some p \<Rightarrow> p | None \<Rightarrow> default_span_policy);
             max_span_sentences =
               (case sp_max_sentence_span policy of Some n \<Rightarrow> n | None \<Rightarrow> 1)
         in List.map_filter
              (\<lambda>i0. first_hit (window_hit t sentences per_sent m i0) [1..max_span_sentences])
              [0..<length sentences]))"

text \<open>The promotion file's entries; \<^verbatim>\<open>None\<close> is an absent key.\<close>

record promotion_rule =
  pr_marker_id :: string
  pr_activate_when :: "activation option"
  pr_min_score :: "real option"
  pr_promote_to :: "string option"

definition compose ::
  "pystr \<Rightarrow> canon \<Rightarrow> annotation list \<Rightarrow> promotion_rule list \<Rightarrow> weights \<Rightarrow> annotation list" where
  "compose t c atomic_hits promotion w =
     (let sentences = sentence_boundaries t;
          per_sent = per_sentence sentences atomic_hits
      in concat (map (compose_marker t sentences per_sent) (composed c)))"

section \<open>The entry point (\<^verbatim>\<open>sem_core.analyze_text\<close>)\<close>

record analysis =
  res_text :: pystr
  annotations :: "annotation list"
  atomic_count :: nat
  composed_count :: nat
  final_count :: nat

definition analyze_text :: "pystr \<Rightarrow> marker list \<Rightarrow> promotion_rule list \<Rightarrow> weights \<Rightarrow> analysis" where
  "analyze_text t markers promotion w =
     (let c = Canon markers;
          rx = compile_atomic_regex c;
          atomic_annotations = detect_atomics t rx;
          composed_annotations = compose t c atomic_annotations promotion w;
          all_annotations = atomic_annotations @ composed_annotations;
          final_annotations = resolve_overlaps all_annotations w
      in \<lparr>res_text = t, annotations = final_annotations,
          atomic_count = length atomic_annotations,
          composed_count = length composed_annotations,
          final_count = length final_annotations\<rparr>)"

section \<open>The LD-3.5 model (\<^verbatim>\<open>core/ld35_engine.py\<close>)\<close>

text \<open>The \<^verbatim>\<open>Annotation\<close> objects of \<^verbatim>\<open>schemas/annotation.py\<close> (\<^verbatim>\<open>meta\<close> is never set).\<close>

record ld_annotation =
  la_start :: int
  la_end :: int
  la_marker :: string
  la_family :: string
  la_label :: string
  la_score :: real

subsection \<open>Post-processing\<close>

text \<open>\<^verbatim>\<open>sorted(xs, key=k, reverse=True)\<close>: stable, descending.\<close>

definition sorted_reverse :: "('a \<Rightarrow> 'k::linorder) \<Rightarrow> 'a list \<Rightarrow> 'a list" where
  "sorted_reverse k xs = rev (sort_key k (rev xs))"

definition ld_overlaps :: "ld_annotation \<Rightarrow> ld_annotation \<Rightarrow> bool" where
  "ld_overlaps ann existing \<longleftrightarrow>
     max (la_start ann) (la_start existing) < min (la_end ann) (la_end existing)"

definition keep_non_overlapping :: "ld_annotation list \<Rightarrow> ld_annotation list" where
  "keep_non_overlapping sorted_anns =
     foldl (\<lambda>non_overlapping ann.
              if list_ex (ld_overlaps ann) non_overlapping then non_overlapping
              else non_overlapping @ [ann])
           [] sorted_anns"

definition resolve_overlapping_annotations :: "ld_annotation list \<Rightarrow> ld_annotation list" where
  "resolve_overlapping_annotations anns =
     sort_key la_start
       (keep_non_overlapping (sorted_reverse (\<lambda>x. (la_score x, la_end x - la_start x)) anns))"

definition remove_duplicate_annotations :: "ld_annotation list \<Rightarrow> ld_annotation list" where
  "remove_duplicate_annotations anns =
     fst (foldl (\<lambda>(unique, seen) ann.
                   let key = (la_start ann, la_end ann, la_marker ann)
                   in if key \<in> seen then (unique, seen) else (unique @ [ann], insert key seen))
                ([], {}) anns)"

definition post_process_annotations :: "ld_annotation list \<Rightarrow> ld_annotation list" where
  "post_process_annotations anns =
     resolve_overlapping_annotations (remove_duplicate_annotations anns)"

subsection \<open>Expressions (\<^verbatim>\<open>LD35Model._evaluate_expression\<close>)\<close>

text \<open>
  \<^verbatim>\<open>eval(expr, {"__builtins__": {}}, context)\<close> on the node classes of \<^typ>\<open>expr\<close>, with
  Python's semantics: \<^verbatim>\<open>and\<close>, \<^verbatim>\<open>or\<close> and comparison chains stop at the deciding operand,
  and a name that \<^verbatim>\<open>context\<close> does not bind raises \<^verbatim>\<open>NameError\<close> (the builtins are empty).
  \<^verbatim>\<open>None\<close> is a raised exception. \<^verbatim>\<open>Unsupported\<close> and \<^verbatim>\<open>OtherCmp\<close> stand for syntax the
  type \<^typ>\<open>expr\<close> does not describe; this function is read on trees without them (and
  without the name \<^verbatim>\<open>__builtins__\<close>, the one global).
\<close>

fun py_eval :: "expr \<Rightarrow> env \<Rightarrow> real option"
  and py_eval_or :: "expr list \<Rightarrow> env \<Rightarrow> real option"
  and py_eval_and :: "expr list \<Rightarrow> env \<Rightarrow> real option"
  and py_eval_compare :: "real \<Rightarrow> (cmpop \<times> expr) list \<Rightarrow> env \<Rightarrow> real option" where
  "py_eval (BoolOr vs) env = py_eval_or vs env"
| "py_eval (BoolAnd vs) env = py_eval_and vs env"
| "py_eval (Compare left' rest) env =
     (case py_eval left' env of None \<Rightarrow> None | Some l \<Rightarrow> py_eval_compare l rest env)"
| "py_eval (UnaryNot operand) env =
     (case py_eval operand env of None \<Rightarrow> None | Some v \<Rightarrow> Some (of_bool (\<not> truthy v)))"
| "py_eval (Name n) env = env n"
| "py_eval (Constant c) env = Some c"
| "py_eval Unsupported env = None"
| "py_eval_or [] env = None"
| "py_eval_or [v] env = py_eval v env"
| "py_eval_or (v # w # vs) env =
     (case py_eval v env of None \<Rightarrow> None
      | Some x \<Rightarrow> if truthy x then Some x else py_eval_or (w # vs) env)"
| "py_eval_and [] env = None"
| "py_eval_and [v] env = py_eval v env"
| "py_eval_and (v # w # vs) env =
     (case py_eval v env of None \<Rightarrow> None
      | Some x \<Rightarrow> if \<not> truthy x then Some x else py_eval_and (w # vs) env)"
| "py_eval_compare l [] env = Some 1"
| "py_eval_compare l ((op, right') # rest) env =
     (case py_eval right' env of None \<Rightarrow> None
      | Some r \<Rightarrow>
          (case OPS op of None \<Rightarrow> None
           | Some f \<Rightarrow> if \<not> f l r then Some 0 else py_eval_compare r rest env))"

text \<open>The expression is \<^verbatim>\<open>None\<close> when its key is absent.\<close>

definition evaluate_expression :: "activation option \<Rightarrow> env \<Rightarrow> bool" where
  "evaluate_expression expression context =
     (case expression of
        None \<Rightarrow> True
      | Some EmptyExpr \<Rightarrow> True
      | Some SyntaxError \<Rightarrow> False
      | Some (Parsed tree) \<Rightarrow>
          (case py_eval tree context of None \<Rightarrow> False | Some v \<Rightarrow> truthy v))"

subsection \<open>Markers as \<^verbatim>\<open>LD35Model\<close> reads them\<close>

text \<open>
  A span-policy dictionary with the keys \<^verbatim>\<open>LD35Model\<close> reads; \<^verbatim>\<open>None\<close> is an absent key.
\<close>

record ld_span_policy =
  lp_mode :: "string option"
  lp_max_sentence_span :: "int option"
  lp_window_tokens :: "(int \<times> int) option"
  lp_fallback :: "string option"

text \<open>
  One entry of \<^verbatim>\<open>markers_index\<close>. \<^verbatim>\<open>lm_regex_specs\<close> and \<^verbatim>\<open>lm_literal_terms\<close> are what
  \<^verbatim>\<open>_collect_marker_signals\<close> returns for the marker, each pattern compiled as the detector
  compiles it (\<^verbatim>\<open>None\<close>: \<^verbatim>\<open>re.compile\<close> raises), the literal terms in the order the detector
  iterates them. \<^verbatim>\<open>lm_label\<close> is \<^verbatim>\<open>_get_marker_label\<close>'s result. The four score fields are the
  numbers under \<^verbatim>\<open>scoring.weight\<close>, \<^verbatim>\<open>scoring.base\<close>, \<^verbatim>\<open>scoring.score\<close> and \<^verbatim>\<open>score\<close>
  (\<^verbatim>\<open>None\<close>: absent or not a number; a number is one \<^verbatim>\<open>float()\<close> converts, an integer
  beyond the float range raises there and the detector drops the marker). A child of
  \<^verbatim>\<open>lm_composed_of\<close> is its \<^verbatim>\<open>marker_id\<close> and its \<^verbatim>\<open>weight\<close> when given. \<^verbatim>\<open>lm_demote_if\<close> and \<^verbatim>\<open>lm_min_children\<close> are keys a bundle may
  carry.
\<close>

record ld_marker =
  lm_id :: string
  lm_kind :: string
  lm_regex_specs :: "regex option list"
  lm_literal_terms :: "regex option list"
  lm_demote_if :: "regex option list"
  lm_label :: string
  lm_scoring_weight :: "real option"
  lm_scoring_base :: "real option"
  lm_scoring_score :: "real option"
  lm_score :: "real option"
  lm_family :: "string option"
  lm_composed_of :: "(string \<times> real option) list"
  lm_activation :: "activation option"
  lm_span_policy :: ld_span_policy
  lm_min_score :: "real option"
  lm_min_children :: "int option"

definition starts_with :: "string \<Rightarrow> string \<Rightarrow> bool" where
  "starts_with s p \<longleftrightarrow> take (length p) s = p"

definition get_marker_type_from_id :: "string \<Rightarrow> string" where
  "get_marker_type_from_id marker_id =
     (if starts_with marker_id ''ATO_'' then ''ATO''
      else if starts_with marker_id ''SEM_'' then ''SEM''
      else if starts_with marker_id ''CLU_'' then ''CLU''
      else if starts_with marker_id ''MEMA_'' then ''MEMA''
      else ''SEM'')"

definition get_marker_score :: "ld_marker \<Rightarrow> real" where
  "get_marker_score marker_data =
     (let score_candidates =
            List.map_filter id [lm_scoring_weight marker_data, lm_scoring_base marker_data,
                                lm_scoring_score marker_data, lm_score marker_data]
      in if score_candidates = [] then 7 / 10
         else (let score = Max (set score_candidates);
                   score1 = (if score > 1 then min 1 (score / 2) else score)
               in max (3 / 10) score1))"

subsection \<open>Atomic detection (\<^verbatim>\<open>LD35Model._pattern_based_detection\<close>)\<close>

record detection_state =
  ds_annotations :: "ld_annotation list"
  ds_marker_matches :: "(string \<times> (int \<times> int) list) list"
  ds_seen_keys :: "(int \<times> int \<times> string) set"

text \<open>\<^verbatim>\<open>marker_matches[marker_id].append(sp)\<close> on a \<^verbatim>\<open>defaultdict(list)\<close>.\<close>

definition append_match ::
  "string \<Rightarrow> int \<times> int \<Rightarrow> (string \<times> (int \<times> int) list) list \<Rightarrow> (string \<times> (int \<times> int) list) list" where
  "append_match marker_id sp mm =
     (case map_of mm marker_id of
        None \<Rightarrow> AList.update marker_id [sp] mm
      | Some spans \<Rightarrow> AList.update marker_id (spans @ [sp]) mm)"

text \<open>The body of both \<^verbatim>\<open>finditer\<close> loops, for one match.\<close>

definition record_match ::
  "ld_marker \<Rightarrow> real \<Rightarrow> detection_state \<Rightarrow> int \<times> int \<Rightarrow> detection_state" where
  "record_match m score st sp =
     (case sp of (start, end') \<Rightarrow>
        if start = end' then st
        else if (start, end', lm_id m) \<in> ds_seen_keys st then st
        else \<lparr>ds_annotations = ds_annotations st @
                 [\<lparr>la_start = start, la_end = end', la_marker = lm_id m,
                   la_family = get_marker_type_from_id (lm_id m), la_label = lm_label m,
                   la_score = score\<rparr>],
               ds_marker_matches = append_match (lm_id m) (start, end') (ds_marker_matches st),
               ds_seen_keys = insert (start, end', lm_id m) (ds_seen_keys st)\<rparr>)"

definition scan_patterns ::
  "pystr \<Rightarrow> ld_marker \<Rightarrow> real \<Rightarrow> regex option list \<Rightarrow> detection_state \<Rightarrow> detection_state" where
  "scan_patterns t m score patterns st =
     foldl (\<lambda>st compiled.
              case compiled of
                None \<Rightarrow> st
              | Some rx \<Rightarrow> foldl (record_match m score) st (rx_finditer rx t))
           st patterns"

definition detect_marker :: "pystr \<Rightarrow> detection_state \<Rightarrow> ld_marker \<Rightarrow> detection_state" where
  "detect_marker t st m =
     (if lm_regex_specs m = [] \<and> lm_literal_terms m = [] then st
      else (let score = get_marker_score m;
                st1 = scan_patterns t m score (lm_regex_specs m) st
            in scan_patterns t m (max (4 / 10) (score - 1 / 10)) (lm_literal_terms m) st1))"

definition family_order :: "string \<Rightarrow> int" where
  "family_order f =
     (if f = ''ATO'' then 0 else if f = ''SEM'' then 1 else if f = ''CLU'' then 2
      else if f = ''MEMA'' then 3 else 4)"

text \<open>
  \<^verbatim>\<open>markers_index\<close> is the list of markers in the dictionary's order. Every caller leaves
  \<^verbatim>\<open>allowed_markers\<close> at \<^verbatim>\<open>None\<close>.
\<close>

definition pattern_based_detection :: "pystr \<Rightarrow> ld_marker list \<Rightarrow> detection_state" where
  "pattern_based_detection t markers_index =
     foldl (detect_marker t)
           \<lparr>ds_annotations = [], ds_marker_matches = [], ds_seen_keys = {}\<rparr>
           (sort_key (\<lambda>m. family_order (get_marker_type_from_id (lm_id m))) markers_index)"

subsection \<open>Positions reported by the engine (\<^verbatim>\<open>LD35Model._detect_annotation_in_text\<close>)\<close>

text \<open>
  \<^verbatim>\<open>patterns\<close> are the compiled \<^verbatim>\<open>re.escape\<close> patterns of the marker's \<^verbatim>\<open>pattern\<close> and its
  first three string \<^verbatim>\<open>examples\<close>; \<^verbatim>\<open>concept\<close> is \<^verbatim>\<open>marker_data.get('concept', marker_id)\<close>.
\<close>

fun detect_annotation_in_text :: "string \<Rightarrow> string \<Rightarrow> regex list \<Rightarrow> pystr \<Rightarrow> ld_annotation" where
  "detect_annotation_in_text marker_id concept [] t =
     \<lparr>la_start = 0, la_end = 0, la_marker = marker_id,
      la_family = get_marker_type_from_id marker_id, la_label = concept, la_score = 1 / 2\<rparr>"
| "detect_annotation_in_text marker_id concept (pattern # patterns) t =
     (case rx_finditer pattern t of
        [] \<Rightarrow> detect_annotation_in_text marker_id concept patterns t
      | (start, end') # _ \<Rightarrow>
          \<lparr>la_start = start, la_end = end', la_marker = marker_id,
           la_family = get_marker_type_from_id marker_id, la_label = concept,
           la_score = 7 / 10\<rparr>)"

subsection \<open>Composed markers (\<^verbatim>\<open>LD35Model._detect_composed_markers\<close>)\<close>

text \<open>
  Sentences and tokens are the spans \<^verbatim>\<open>_get_sentences\<close> and \<^verbatim>\<open>_get_tokens\<close> find in the text
  with their regular expressions. \<^verbatim>\<open>xs[i]\<close> on a Python list counts a negative index from
  the end and raises \<^verbatim>\<open>IndexError\<close> (here \<^verbatim>\<open>None\<close>) out of range.
\<close>

definition py_index :: "'a list \<Rightarrow> int \<Rightarrow> 'a option" where
  "py_index xs i =
     (let n = int (length xs)
      in if 0 \<le> i \<and> i < n then Some (xs ! nat i)
         else if - n \<le> i \<and> i < 0 then Some (xs ! nat (n + i))
         else None)"

fun find_sentence_index :: "(int \<times> int) list \<Rightarrow> int \<Rightarrow> nat option" where
  "find_sentence_index sentences position =
     (case get_sentence_idx sentences position of
        Some idx \<Rightarrow> Some idx
      | None \<Rightarrow> if sentences \<noteq> [] then Some (length sentences - 1) else None)"

definition find_token_index :: "(int \<times> int) list \<Rightarrow> int \<Rightarrow> nat option" where
  "find_token_index tokens position =
     (case get_sentence_idx tokens position of
        Some idx \<Rightarrow> Some idx
      | None \<Rightarrow> if tokens \<noteq> [] \<and> position \<ge> snd (last tokens)
                then Some (length tokens - 1) else None)"

text \<open>\<^verbatim>\<open>max(spans, key=lambda s: s[1] - s[0])\<close>: the first span of greatest length.\<close>

fun longest_span :: "(int \<times> int) list \<Rightarrow> int \<times> int" where
  "longest_span [] = (0, 0)"
| "longest_span [s] = s"
| "longest_span (s # r # rest) =
     (let best = longest_span (r # rest)
      in if snd s - fst s \<ge> snd best - fst best then s else best)"

text \<open>
  The result of a span policy: a span, \<^verbatim>\<open>None\<close> (the marker is skipped), or a raised
  \<^verbatim>\<open>IndexError\<close>.
\<close>

datatype span_result = Span int int | NoSpan | Raised

definition anchor_window ::
  "pystr \<Rightarrow> (int \<times> int) list \<Rightarrow> (int \<times> int) list \<Rightarrow> ld_span_policy \<Rightarrow> span_result" where
  "anchor_window t tokens spans policy =
     (if spans = [] then NoSpan
      else
        (let window_tokens = (case lp_window_tokens policy of Some w \<Rightarrow> w | None \<Rightarrow> (- 8, 8));
             anchor_span = longest_span spans
         in case find_token_index tokens (fst anchor_span) of
              None \<Rightarrow> Span (max 0 (fst anchor_span - 50))
                           (min (int (length t)) (snd anchor_span + 50))
            | Some anchor_index \<Rightarrow>
                (let left' = max 0 (int anchor_index + fst window_tokens);
                     right' = min (int (length tokens) - 1) (int anchor_index + snd window_tokens)
                 in case (py_index tokens left', py_index tokens right') of
                      (Some tok_l, Some tok_r) \<Rightarrow> Span (fst tok_l) (snd tok_r)
                    | _ \<Rightarrow> Raised)))"

definition ld_apply_span_policy ::
  "pystr \<Rightarrow> (int \<times> int) list \<Rightarrow> (int \<times> int) list \<Rightarrow> (int \<times> int) list \<Rightarrow> ld_span_policy
     \<Rightarrow> span_result" where
  "ld_apply_span_policy t sentences tokens child_spans policy =
     (if child_spans = [] then NoSpan
      else if (case lp_mode policy of Some m \<Rightarrow> m | None \<Rightarrow> ''anchor_window'') = ''sentence_union''
      then
        (if sentences = [] then anchor_window t tokens child_spans policy
         else
           (let sentence_ids =
                  List.map_filter
                    (\<lambda>(start, end'). find_sentence_index sentences ((start + end') div 2))
                    child_spans
            in if sentence_ids = [] then anchor_window t tokens child_spans policy
               else
                 (let first_id = Min (set sentence_ids);
                      last_id = Max (set sentence_ids);
                      max_span = (case lp_max_sentence_span policy of Some n \<Rightarrow> n | None \<Rightarrow> 1)
                  in if int last_id - int first_id + 1 > max_span
                     then (if lp_fallback policy = Some ''anchor_window''
                           then anchor_window t tokens child_spans policy else NoSpan)
                     else Span (fst (sentences ! first_id)) (snd (sentences ! last_id)))))
      else anchor_window t tokens child_spans policy)"

text \<open>\<^verbatim>\<open>_load_promotion_rules\<close>: entries keyed by marker id, a later entry replacing an earlier.\<close>

definition load_promotion_rules :: "promotion_rule list \<Rightarrow> (string \<times> promotion_rule) list" where
  "load_promotion_rules promotions =
     foldl (\<lambda>rules entry.
              if pr_marker_id entry = [] then rules
              else AList.update (pr_marker_id entry) entry rules)
           [] promotions"

record composed_state =
  cs_annotations :: "ld_annotation list"
  cs_marker_matches :: "(string \<times> (int \<times> int) list) list"

text \<open>
  What one iteration of the loop over \<^verbatim>\<open>markers_index\<close> does for a marker: nothing
  (\<^verbatim>\<open>Skip\<close>, a \<^verbatim>\<open>continue\<close>), an emitted annotation, or a raised exception.
\<close>

datatype composed_outcome = Skip | Emit ld_annotation | Fail

text \<open>\<^verbatim>\<open>child_info\<close>: each child's id, weight and the matches recorded for it so far.\<close>

definition child_info ::
  "(string \<times> (int \<times> int) list) list \<Rightarrow> ld_marker \<Rightarrow> (string \<times> real \<times> (int \<times> int) list) list" where
  "child_info marker_matches m =
     map (\<lambda>(child_id, weight).
            (child_id,
             (case weight of None \<Rightarrow> 1 | Some x \<Rightarrow> if x = 0 then 1 else x),
             (case map_of marker_matches child_id of None \<Rightarrow> [] | Some ms \<Rightarrow> ms)))
         (filter (\<lambda>(child_id, weight). child_id \<noteq> []) (lm_composed_of m))"

definition child_counts :: "(string \<times> real \<times> (int \<times> int) list) list \<Rightarrow> (string \<times> int) list" where
  "child_counts info =
     foldl (\<lambda>c (child_id, weight, ms). AList.update child_id (int (length ms)) c) [] info"

definition total_children :: "(string \<times> (int \<times> int) list) list \<Rightarrow> ld_marker \<Rightarrow> int" where
  "total_children marker_matches m = sum_list (map snd (child_counts (child_info marker_matches m)))"

definition composed_score :: "(string \<times> (int \<times> int) list) list \<Rightarrow> ld_marker \<Rightarrow> real" where
  "composed_score marker_matches m =
     (let info = child_info marker_matches m;
          weights_total = sum_list (map (\<lambda>(child_id, weight, ms). weight) info);
          weight_sum = (if weights_total = 0 then 1 else weights_total)
      in sum_list (map (\<lambda>(child_id, weight, ms). real (length ms) * weight) info) / weight_sum)"

definition min_children_default :: "weights \<Rightarrow> int" where
  "min_children_default w =
     (case composed_min_children w of None \<Rightarrow> 1 | Some n \<Rightarrow> if n = 0 then 1 else n)"

definition min_score_default :: "weights \<Rightarrow> real" where
  "min_score_default w =
     (case composed_min_score w of None \<Rightarrow> 6 / 10 | Some x \<Rightarrow> if x = 0 then 6 / 10 else x)"

text \<open>
  The family before promotion:
  \<^verbatim>\<open>marker_data.get("family") or ... or self._get_marker_type_from_id(marker_id)\<close>.
\<close>

definition marker_family :: "ld_marker \<Rightarrow> string" where
  "marker_family m =
     (case lm_family m of
        None \<Rightarrow> get_marker_type_from_id (lm_id m)
      | Some f \<Rightarrow> if f = [] then get_marker_type_from_id (lm_id m) else f)"

text \<open>The context a promotion rule's guard is evaluated in.\<close>

definition promo_context :: "real \<Rightarrow> int \<Rightarrow> env" where
  "promo_context score n_children =
     map_of [(''score'', score), (''total_children'', real_of_int n_children)]"

definition composed_outcome ::
  "pystr \<Rightarrow> (int \<times> int) list \<Rightarrow> (int \<times> int) list \<Rightarrow> weights
     \<Rightarrow> (string \<times> promotion_rule) list \<Rightarrow> (string \<times> (int \<times> int) list) list \<Rightarrow> ld_marker
     \<Rightarrow> composed_outcome" where
  "composed_outcome t sentences tokens w promotion_rules marker_matches m =
     (if lm_kind m \<noteq> ''composed'' \<and> lm_kind m \<noteq> ''COMPOSED'' then Skip
      else
        (let info = child_info marker_matches m;
             n_children = total_children marker_matches m;
             score = composed_score marker_matches m;
             min_score =
               (case lm_min_score m of
                  None \<Rightarrow> min_score_default w
                | Some x \<Rightarrow> if x = 0 then min_score_default w else x);
             context =
               map_of (AList.update ''total_children'' (real_of_int n_children)
                         (AList.update ''score'' score
                            (map (\<lambda>(k, v). (k, real_of_int v)) (child_counts info))));
             child_spans = concat (map (\<lambda>(child_id, weight, ms). ms) info)
         in if info = [] then Skip
            else if n_children < min_children_default w then Skip
            else if score < min_score then Skip
            else if \<not> evaluate_expression (lm_activation m) context then Skip
            else
              (case ld_apply_span_policy t sentences tokens child_spans (lm_span_policy m) of
                 NoSpan \<Rightarrow> Skip
               | Raised \<Rightarrow> Fail
               | Span start end' \<Rightarrow>
                   (let hit = (\<lambda>fam. \<lparr>la_start = start, la_end = end', la_marker = lm_id m,
                                      la_family = fam, la_label = lm_label m, la_score = score\<rparr>)
                    in case map_of promotion_rules (lm_id m) of
                         None \<Rightarrow> Emit (hit (marker_family m))
                       | Some promo_rule \<Rightarrow>
                           if \<not> evaluate_expression (pr_activate_when promo_rule)
                                  (promo_context score n_children)
                           then Skip
                           else if (case pr_min_score promo_rule of
                                      None \<Rightarrow> False | Some ms \<Rightarrow> score < ms)
                           then Skip
                           else Emit (hit (case pr_promote_to promo_rule of
                                             None \<Rightarrow> marker_family m | Some f \<Rightarrow> f))))))"

text \<open>The loop; \<^verbatim>\<open>None\<close> when an iteration raises.\<close>

fun composed_loop ::
  "pystr \<Rightarrow> (int \<times> int) list \<Rightarrow> (int \<times> int) list \<Rightarrow> weights
     \<Rightarrow> (string \<times> promotion_rule) list \<Rightarrow> composed_state \<Rightarrow> ld_marker list
     \<Rightarrow> composed_state option" where
  "composed_loop t sentences tokens w rules st [] = Some st"
| "composed_loop t sentences tokens w rules st (m # ms) =
     (case composed_outcome t sentences tokens w rules (cs_marker_matches st) m of
        Skip \<Rightarrow> composed_loop t sentences tokens w rules st ms
      | Fail \<Rightarrow> None
      | Emit a \<Rightarrow>
          composed_loop t sentences tokens w rules
            \<lparr>cs_annotations = cs_annotations st @ [a],
             cs_marker_matches =
               append_match (lm_id m) (la_start a, la_end a) (cs_marker_matches st)\<rparr>
            ms)"

definition detect_composed_markers ::
  "pystr \<Rightarrow> (int \<times> int) list \<Rightarrow> (int \<times> int) list \<Rightarrow> weights \<Rightarrow> promotion_rule list
     \<Rightarrow> ld_marker list \<Rightarrow> (string \<times> (int \<times> int) list) list \<Rightarrow> ld_annotation list option" where
  "detect_composed_markers t sentences tokens w promotions markers_index marker_matches =
     map_option cs_annotations
       (composed_loop t sentences tokens w (load_promotion_rules promotions)
          \<lparr>cs_annotations = [], cs_marker_matches = marker_matches\<rparr> markers_index)"

section \<open>Predicates used in the statements\<close>




text \<open>
  Consecutive spans over a text: every span has its start at or before its end, and the
  next span starts where the previous one ends, or one position later when the position in
  between holds a newline.
\<close>

fun chained :: "pystr \<Rightarrow> (int \<times> int) list \<Rightarrow> bool" where
  "chained t [] = True"
| "chained t [(s, e)] = (s \<le> e)"
| "chained t ((s, e) # (s', e') # rest) =
     (s \<le> e \<and> (s' = e \<or> (s' = e + 1 \<and> 0 \<le> e \<and> t ! nat e = 10))
      \<and> chained t ((s', e') # rest))"

text \<open>The loop invariant of the segmenter.\<close>

definition seg_inv :: "pystr \<Rightarrow> nat \<Rightarrow> (int \<times> int) list \<Rightarrow> bool" where
  "seg_inv t start out \<longleftrightarrow>
     chained t out \<and> start \<le> length t
     \<and> (out = [] \<longrightarrow> start = 0)
     \<and> (out \<noteq> [] \<longrightarrow> fst (hd out) = 0
          \<and> (int start = snd (last out)
              \<or> (int start = snd (last out) + 1 \<and> start < length t \<and> 0 \<le> snd (last out)
                  \<and> t ! nat (snd (last out)) = 10)))"

text \<open>The span of an annotation lies inside the text and is not empty.\<close>

definition in_text :: "pystr \<Rightarrow> annotation \<Rightarrow> bool" where
  "in_text t a \<longleftrightarrow> 0 \<le> ann_start a \<and> ann_start a < ann_end a \<and> ann_end a \<le> int (length t)"

text \<open>
  A span policy whose anchor window, where the policy is one, reaches back from the anchor's
  start and forward from its end: \<^verbatim>\<open>window_tokens = [l, r]\<close> with \<^verbatim>\<open>l <= 0 <= r\<close> (the
  default \<^verbatim>\<open>[-8, 8]\<close> is such a window).
\<close>

definition window_around_anchor :: "span_policy \<Rightarrow> bool" where
  "window_around_anchor p \<longleftrightarrow>
     sp_mode p = Some ''sentence_union'' \<or> sp_mode p = Some ''clause_union''
     \<or> (case sp_window_tokens p of None \<Rightarrow> True | Some (l, r) \<Rightarrow> l \<le> 0 \<and> 0 \<le> r)"

text \<open>Every detect pattern of the bundle reports spans inside the text.\<close>

definition detects_within :: "pystr \<Rightarrow> marker list \<Rightarrow> bool" where
  "detects_within t markers =
     list_all (\<lambda>m. list_all (\<lambda>p. case p of None \<Rightarrow> True | Some rx \<Rightarrow> spans_within rx t)
                             (m_detects m))
              markers"



text \<open>
  The span policy of a marker keeps the anchor inside its span: it is absent (the default
  is \<^verbatim>\<open>sentence_union\<close>) or a \<^verbatim>\<open>window_around_anchor\<close>.
\<close>

definition anchored :: "marker \<Rightarrow> bool" where
  "anchored m \<longleftrightarrow>
     (case m_span_policy m of None \<Rightarrow> True | Some p \<Rightarrow> window_around_anchor p)"

text \<open>
  The annotation carries the id of a composed marker of the bundle whose anchor window
  does not contain the anchor.
\<close>

definition off_anchor_hit :: "marker list \<Rightarrow> annotation \<Rightarrow> bool" where
  "off_anchor_hit markers a \<longleftrightarrow>
     list_ex (\<lambda>m. m_kind m = ''composed'' \<and> m_id m = ann_marker_id a \<and> \<not> anchored m) markers"
section \<open>Test fixtures\<close>

text \<open>
  The compiled pattern \<^verbatim>\<open>re.compile(re.escape(lit))\<close> of a non-empty literal: its
  matches are the occurrences of the literal, left to right, none overlapping.
\<close>

fun scan_literal :: "pystr \<Rightarrow> pystr \<Rightarrow> nat \<Rightarrow> nat \<Rightarrow> (int \<times> int) list" where
  "scan_literal lit [] off skip = []"
| "scan_literal lit (c # cs) off skip =
     (if skip > 0 then scan_literal lit cs (off + 1) (skip - 1)
      else if lit \<noteq> [] \<and> take (length lit) (c # cs) = lit
      then (int off, int (off + length lit)) # scan_literal lit cs (off + 1) (length lit - 1)
      else scan_literal lit cs (off + 1) 0)"

definition literal_rx :: "string \<Rightarrow> regex" where
  "literal_rx lit =
     \<lparr>rx_finditer = (\<lambda>t. scan_literal (str lit) t 0 0), rx_fullmatch = (\<lambda>s. s = str lit)\<rparr>"

definition atomic_marker :: "string \<Rightarrow> string \<Rightarrow> marker" where
  "atomic_marker mid lit =
     \<lparr>m_id = mid, m_kind = ''atomic'', m_detects = [Some (literal_rx lit)], m_demote_if = [],
      m_composed_of = [], m_activation = None, m_span_policy = None,
      m_min_children = None, m_min_score = None\<rparr>"

definition no_weights :: weights where
  "no_weights = \<lparr>composed_min_children = None, composed_min_score = None\<rparr>"




definition hit :: "string \<Rightarrow> string \<Rightarrow> int \<Rightarrow> int \<Rightarrow> real \<Rightarrow> annotation" where
  "hit mid fam s e sc =
     \<lparr>ann_marker_id = mid, ann_family = fam, ann_start = s, ann_end = e, ann_score = sc\<rparr>"

definition two_atoms :: "marker list" where
  "two_atoms = [atomic_marker ''ATO_X'' ''x'', atomic_marker ''ATO_Y'' ''y'']"

definition la_hit :: "string \<Rightarrow> string \<Rightarrow> int \<Rightarrow> int \<Rightarrow> real \<Rightarrow> ld_annotation" where
  "la_hit mid fam s e sc =
     \<lparr>la_start = s, la_end = e, la_marker = mid, la_family = fam, la_label = mid, la_score = sc\<rparr>"

definition ld_base :: ld_marker where
  "ld_base =
     \<lparr>lm_id = [], lm_kind = [], lm_regex_specs = [], lm_literal_terms = [], lm_demote_if = [],
      lm_label = [], lm_scoring_weight = None, lm_scoring_base = None, lm_scoring_score = None,
      lm_score = None, lm_family = None, lm_composed_of = [], lm_activation = None,
      lm_span_policy = \<lparr>lp_mode = None, lp_max_sentence_span = None, lp_window_tokens = None,
                         lp_fallback = None\<rparr>,
      lm_min_score = None, lm_min_children = None\<rparr>"

definition ld_atomic :: "string \<Rightarrow> string \<Rightarrow> ld_marker" where
  "ld_atomic mid lit =
     ld_base\<lparr>lm_id := mid, lm_kind := ''atomic'', lm_regex_specs := [Some (literal_rx lit)],
             lm_label := mid\<rparr>"

definition x_ge_1_and_y_ge_1 :: activation where
  "x_ge_1_and_y_ge_1 =
     Parsed (BoolAnd [Compare (Name ''ATO_X'') [(GtE, Constant 1)],
                      Compare (Name ''ATO_Y'') [(GtE, Constant 1)]])"

definition ld_sem_xy :: ld_marker where
  "ld_sem_xy =
     ld_base\<lparr>lm_id := ''SEM_XY'', lm_kind := ''composed'', lm_label := ''SEM_XY'',
             lm_composed_of := [(''ATO_X'', Some 1), (''ATO_Y'', Some 1)],
             lm_activation := Some x_ge_1_and_y_ge_1,
             lm_span_policy := \<lparr>lp_mode = Some ''sentence_union'', lp_max_sentence_span = Some 1,
                                 lp_window_tokens = None, lp_fallback = None\<rparr>,
             lm_min_children := Some 3\<rparr>"

definition ld_bundle_xy :: "ld_marker list" where
  "ld_bundle_xy = [ld_atomic ''ATO_X'' ''x'', ld_atomic ''ATO_Y'' ''y'', ld_sem_xy]"

text \<open>A promotion rule for \<^verbatim>\<open>SEM_XY\<close> with the guard \<^verbatim>\<open>score > 2\<close>.\<close>

definition promo_xy :: promotion_rule where
  "promo_xy =
     \<lparr>pr_marker_id = ''SEM_XY'',
      pr_activate_when = Some (Parsed (Compare (Name ''score'') [(Gt, Constant 2)])),
      pr_min_score = None, pr_promote_to = Some ''CLU''\<rparr>"

definition promo_pass :: promotion_rule where
  "promo_pass =
     \<lparr>pr_marker_id = ''SEM_XY'',
      pr_activate_when = Some (Parsed (Compare (Name ''score'') [(Gt, Constant (1/2))])),
      pr_min_score = None, pr_promote_to = Some ''CLU''\<rparr>"


definition hello_marker :: marker where
  "hello_marker = (atomic_marker ''ATO_HELLO'' ''Hello'')\<lparr>m_demote_if := [Some (literal_rx ''Hello'')]\<rparr>"

definition ld_hello_marker :: ld_marker where
  "ld_hello_marker = (ld_atomic ''ATO_HELLO'' ''Hello'')\<lparr>lm_demote_if := [Some (literal_rx ''Hello'')]\<rparr>"


text \<open>
  \<^verbatim>\<open>SEM_FWD\<close>: composed of \<^verbatim>\<open>ATO_X\<close> and \<^verbatim>\<open>ATO_Y\<close>, with an anchor window of the tokens
  1 to 8 after the anchor.
\<close>

definition sem_fwd :: marker where
  "sem_fwd =
     \<lparr>m_id = ''SEM_FWD'', m_kind = ''composed'', m_detects = [], m_demote_if = [],
      m_composed_of = [(''ATO_X'', 1), (''ATO_Y'', 1)],
      m_activation = None,
      m_span_policy = Some \<lparr>sp_mode = Some ''anchor_window'', sp_max_sentence_span = None,
                             sp_window_tokens = Some (1, 8)\<rparr>,
      m_min_children = None, m_min_score = None\<rparr>"

definition bundle_fwd :: "marker list" where
  "bundle_fwd = [atomic_marker ''ATO_X'' ''x'', atomic_marker ''ATO_Y'' ''y'', sem_fwd]"

text \<open>
  \<^verbatim>\<open>SEM_AW\<close>: composed of \<^verbatim>\<open>ATO_X\<close> and \<^verbatim>\<open>ATO_Y\<close>, with an anchor window and no
  \<^verbatim>\<open>window_tokens\<close> (the default \<^verbatim>\<open>[-8, 8]\<close> applies).
\<close>

definition sem_aw :: marker where
  "sem_aw =
     \<lparr>m_id = ''SEM_AW'', m_kind = ''composed'', m_detects = [], m_demote_if = [],
      m_composed_of = [(''ATO_X'', 1), (''ATO_Y'', 1)],
      m_activation = None,
      m_span_policy = Some \<lparr>sp_mode = Some ''anchor_window'', sp_max_sentence_span = None,
                             sp_window_tokens = None\<rparr>,
      m_min_children = None, m_min_score = None\<rparr>"

definition bundle_aw :: "marker list" where
  "bundle_aw = [atomic_marker ''ATO_X'' ''x'', atomic_marker ''ATO_Y'' ''y'', sem_aw]"


section \<open>Properties of the resolver\<close>

lemma overlaps_sym: "overlaps a b = overlaps b a"
  by (auto simp: overlaps_def)

lemma overlaps_shared_point:
  assumes "overlaps c k" and "overlaps c e"
    and "ann_start k \<le> ann_start c" and "ann_start e \<le> ann_start c"
  shows "overlaps k e"
  using assms by (auto simp: overlaps_def)

lemma set_place: "set (place c kept) \<subseteq> insert c (set kept)"
  by (induction kept) auto

lemma mset_place: "mset (place c kept) \<subseteq># add_mset c (mset kept)"
proof (induction kept)
  case Nil
  show ?case by simp
next
  case (Cons k ks)
  have "add_mset k (mset (place c ks)) \<subseteq># add_mset k (add_mset c (mset ks))"
    using Cons.IH by simp
  then show ?case
    by (simp add: add_mset_commute)
qed

lemma place_disjoint:
  assumes "disjoint_list kept" and "\<forall>k \<in> set kept. ann_start k \<le> ann_start c"
  shows "disjoint_list (place c kept)"
  using assms
proof (induction kept)
  case Nil
  show ?case by simp
next
  case (Cons k ks)
  have dk: "\<forall>e \<in> set ks. \<not> overlaps k e" and dks: "disjoint_list ks"
    using Cons.prems(1) by (simp_all add: list_all_iff)
  have sk: "ann_start k \<le> ann_start c" and sks: "\<forall>e \<in> set ks. ann_start e \<le> ann_start c"
    using Cons.prems(2) by simp_all
  show ?case
  proof (cases "overlaps c k")
    case True
    have "\<forall>e \<in> set ks. \<not> overlaps c e"
    proof
      fix e assume e: "e \<in> set ks"
      show "\<not> overlaps c e"
      proof
        assume "overlaps c e"
        then have "overlaps k e"
          using True sk sks e overlaps_shared_point by blast
        with dk e show False by blast
      qed
    qed
    with True dk dks show ?thesis by (simp add: list_all_iff)
  next
    case False
    have "disjoint_list (place c ks)"
      using Cons.IH dks sks by blast
    moreover have "\<forall>e \<in> set (place c ks). \<not> overlaps k e"
    proof
      fix e assume "e \<in> set (place c ks)"
      then have "e = c \<or> e \<in> set ks" using set_place by blast
      then show "\<not> overlaps k e"
        using False dk overlaps_sym by blast
    qed
    ultimately show ?thesis using False by (simp add: list_all_iff)
  qed
qed

lemma foldl_place_disjoint:
  assumes "sorted (map ann_start xs)" and "disjoint_list kept"
    and "\<forall>k \<in> set kept. \<forall>x \<in> set xs. ann_start k \<le> ann_start x"
  shows "disjoint_list (foldl (\<lambda>kept current. place current kept) kept xs)"
  using assms
proof (induction xs arbitrary: kept)
  case Nil
  then show ?case by simp
next
  case (Cons x xs)
  have d: "disjoint_list (place x kept)"
    using Cons.prems(2,3) place_disjoint by simp
  have "\<forall>k \<in> set (place x kept). \<forall>y \<in> set xs. ann_start k \<le> ann_start y"
  proof (intro ballI)
    fix k y assume k: "k \<in> set (place x kept)" and y: "y \<in> set xs"
    from k have "k = x \<or> k \<in> set kept" using set_place by blast
    then show "ann_start k \<le> ann_start y"
      using Cons.prems(1,3) y by auto
  qed
  moreover have "sorted (map ann_start xs)" using Cons.prems(1) by simp
  ultimately show ?case using Cons.IH d by simp
qed

lemma sorted_fst_of_pairs:
  fixes f :: "'a \<Rightarrow> int" and g :: "'a \<Rightarrow> int"
  assumes "sorted (map (\<lambda>a. (f a, g a)) xs)"
  shows "sorted (map f xs)"
  using assms
  by (induction xs) (auto simp: less_eq_prod_def)

lemma sorted_sort_position: "sorted (map ann_start (sort_position anns))"
  unfolding sort_position_def
  by (rule sorted_fst_of_pairs [where g = "\<lambda>a. - (ann_end a - ann_start a)"]) simp

lemma mset_sort_position: "mset (sort_position anns) = mset anns"
  by (simp add: sort_position_def)

lemma resolve_overlaps_disjoint: "disjoint_list (resolve_overlaps anns w)"
  unfolding resolve_overlaps_def
  by (rule foldl_place_disjoint) (simp_all add: sorted_sort_position)

lemma disjoint_list_nth:
  assumes "disjoint_list xs" and "i < j" and "j < length xs"
  shows "\<not> overlaps (xs ! i) (xs ! j)"
  using assms
proof (induction xs arbitrary: i j)
  case Nil
  then show ?case by simp
next
  case (Cons x xs)
  show ?case
  proof (cases i)
    case 0
    then obtain j' where j: "j = Suc j'" using Cons.prems(2) by (cases j) auto
    then have "xs ! j' \<in> set xs" using Cons.prems(3) by simp
    then show ?thesis using Cons.prems(1) 0 j by (simp add: list_all_iff)
  next
    case (Suc i')
    then obtain j' where j: "j = Suc j'" using Cons.prems(2) by (cases j) auto
    then show ?thesis using Cons Suc by simp
  qed
qed

lemma mset_foldl_place:
  "mset (foldl (\<lambda>kept current. place current kept) kept xs) \<subseteq># mset kept + mset xs"
proof (induction xs arbitrary: kept)
  case Nil
  show ?case by simp
next
  case (Cons x xs)
  have "mset (foldl (\<lambda>kept current. place current kept) (place x kept) xs)
          \<subseteq># mset (place x kept) + mset xs"
    by (rule Cons.IH)
  also have "\<dots> \<subseteq># add_mset x (mset kept) + mset xs"
    using mset_place by (simp del: add_mset_add_single)
  finally show ?case by simp
qed

lemma mset_resolve_overlaps: "mset (resolve_overlaps anns w) \<subseteq># mset anns"
  using mset_foldl_place [of "[]" "sort_position anns"]
  by (simp add: resolve_overlaps_def mset_sort_position)

lemma set_resolve_overlaps: "set (resolve_overlaps anns w) \<subseteq> set anns"
  using mset_resolve_overlaps [of anns w] set_mset_mono by fastforce

lemma length_resolve_overlaps: "length (resolve_overlaps anns w) \<le> length anns"
  using mset_resolve_overlaps [of anns w] size_mset_mono by fastforce


lemmas resolve_defs = resolve_overlaps_def sort_position_def overlaps_def current_wins_def
  family_rank_def FAMILY_ORDER_def

subsection \<open>Ties and marker ids\<close>

















section \<open>Evaluation on concrete inputs\<close>

lemmas sb_defs = sentence_boundaries_def sentence_loop.simps skip_closing.simps enders_def
  closing_chars_def isspace_def str_def

lemmas atomic_defs = detect_atomics_def compile_atomic_regex_def compiled_def Canon_def pattern_hits_def
  should_demote_match_def atomic_hit_def family_of_id_def ascii_upper_def
  List.map_filter_simps literal_rx_def atomic_marker_def py_slice_def

lemmas compose_defs = compose_def compose_marker_def window_hit_def window_atomics_def window_counts_def
  counts_env_def per_sentence_def mid_of_def default_activation_def default_span_policy_def
  eval_activation_def OPS_def truthy_def py_round3_def apply_span_policy_def
  last_index_where_def sentence_union_def sentence_union_loop.simps clause_union_def
  py_find_def py_rfind_def

lemmas ld_resolve_defs = resolve_overlapping_annotations_def keep_non_overlapping_def
  sorted_reverse_def ld_overlaps_def la_hit_def

lemma analyze_two_atoms:
  "analyze_text (str ''x. y.'') two_atoms [] no_weights =
     \<lparr>res_text = str ''x. y.'',
      annotations = [hit ''ATO_X'' ''ATO'' 0 1 1, hit ''ATO_Y'' ''ATO'' 3 4 1],
      atomic_count = 2, composed_count = 0, final_count = 2\<rparr>"
  by (simp add: analyze_text_def two_atoms_def sb_defs atomic_defs compose_defs resolve_defs
      hit_def Let_def)

lemma annotations_analyze_text:
  "annotations (analyze_text t markers promotion w) =
     resolve_overlaps
       (detect_atomics t (compile_atomic_regex (Canon markers)) @
        compose t (Canon markers) (detect_atomics t (compile_atomic_regex (Canon markers)))
          promotion w) w"
  by (simp add: analyze_text_def Let_def)

lemma mset_keep_non_overlapping_aux:
  "mset (foldl (\<lambda>non_overlapping ann.
              if list_ex (ld_overlaps ann) non_overlapping then non_overlapping
              else non_overlapping @ [ann]) acc xs) \<subseteq># mset acc + mset xs"
proof (induction xs arbitrary: acc)
  case Nil
  show ?case by simp
next
  case (Cons x xs)
  show ?case
  proof (cases "list_ex (ld_overlaps x) acc")
    case True
    have "mset acc + mset xs \<subseteq># mset acc + mset (x # xs)" by simp
    with Cons.IH [of acc] True show ?thesis
      by (auto intro: subset_mset.order_trans)
  next
    case False
    with Cons.IH [of "acc @ [x]"] show ?thesis by simp
  qed
qed

lemma mset_resolve_overlapping_annotations:
  "mset (resolve_overlapping_annotations anns) \<subseteq># mset anns"
  using mset_keep_non_overlapping_aux
    [of "[]" "sorted_reverse (\<lambda>x. (la_score x, la_end x - la_start x)) anns"]
  by (simp add: resolve_overlapping_annotations_def keep_non_overlapping_def sorted_reverse_def)

lemmas ld_detect_defs = pattern_based_detection_def detect_marker_def scan_patterns_def
  record_match_def append_match_def get_marker_score_def get_marker_type_from_id_def
  starts_with_def family_order_def ld_base_def ld_atomic_def literal_rx_def str_def
  List.map_filter_simps

lemma detect_ld_bundle_xy:
  "pattern_based_detection (str ''x + y. z.'') ld_bundle_xy =
     \<lparr>ds_annotations = [la_hit ''ATO_X'' ''ATO'' 0 1 (7/10), la_hit ''ATO_Y'' ''ATO'' 4 5 (7/10)],
      ds_marker_matches = [(''ATO_X'', [(0, 1)]), (''ATO_Y'', [(4, 5)])],
      ds_seen_keys = {(4, 5, ''ATO_Y''), (0, 1, ''ATO_X'')}\<rparr>"
  by (simp add: ld_detect_defs ld_bundle_xy_def ld_sem_xy_def la_hit_def)

lemmas ld_compose_defs = detect_composed_markers_def composed_outcome_def child_info_def
  child_counts_def total_children_def composed_score_def min_children_default_def
  min_score_default_def promo_context_def marker_family_def ld_apply_span_policy_def anchor_window_def
  find_token_index_def py_index_def load_promotion_rules_def evaluate_expression_def
  OPS_def truthy_def append_match_def get_marker_type_from_id_def starts_with_def
  List.map_filter_simps ld_base_def ld_atomic_def ld_sem_xy_def x_ge_1_and_y_ge_1_def
  no_weights_def promo_xy_def la_hit_def ld_bundle_xy_def

lemma composed_ld_bundle_xy:
  "detect_composed_markers (str ''x + y. z.'') [(0, 6), (6, 9)] [(0, 1), (4, 5), (7, 8)]
     no_weights [] ld_bundle_xy [(''ATO_X'', [(0, 1)]), (''ATO_Y'', [(4, 5)])]
   = Some [la_hit ''SEM_XY'' ''SEM'' 0 6 1]"
  by (simp add: ld_compose_defs)

lemma composed_ld_bundle_xy_promo:
  "detect_composed_markers (str ''x + y. z.'') [(0, 6), (6, 9)] [(0, 1), (4, 5), (7, 8)]
     no_weights [promo_xy] ld_bundle_xy [(''ATO_X'', [(0, 1)]), (''ATO_Y'', [(4, 5)])]
   = Some []"
  by (simp add: ld_compose_defs)

section \<open>Expressions and promotion\<close>

lemma eval_node_unknown_name: "env n = None \<Longrightarrow> eval_node (Name n) env = Some 0"
  by simp

lemma py_eval_unknown_name: "env n = None \<Longrightarrow> py_eval (Name n) env = None"
  by simp

lemma outcome_xy_guard_fails:
  "composed_outcome (str ''x + y. z.'') [(0, 6), (6, 9)] [(0, 1), (4, 5), (7, 8)] no_weights
     (load_promotion_rules [promo_xy]) [(''ATO_X'', [(0, 1)]), (''ATO_Y'', [(4, 5)])] ld_sem_xy
   = Skip"
  by (simp add: ld_compose_defs)

lemma outcome_xy_guard_passes:
  "composed_outcome (str ''x + y. z.'') [(0, 6), (6, 9)] [(0, 1), (4, 5), (7, 8)] no_weights
     (load_promotion_rules [promo_pass]) [(''ATO_X'', [(0, 1)]), (''ATO_Y'', [(4, 5)])] ld_sem_xy
   = Emit (la_hit ''SEM_XY'' ''CLU'' 0 6 1)"
  by (simp add: ld_compose_defs promo_pass_def)

section \<open>Child counts\<close>

lemma map_entry_absent: "k \<notin> fst ` set al \<Longrightarrow> AList.map_entry k f al = al"
  by (induction al) auto

lemma keys_zero_counts:
  "fst ` set (foldl (\<lambda>c cid. AList.update cid (0::int) c) c0 ids) = fst ` set c0 \<union> set ids"
  by (induction ids arbitrary: c0) (auto simp: dom_update)

lemma values_zero_counts:
  "\<forall>v \<in> snd ` set c0. v = 0 \<Longrightarrow>
   \<forall>v \<in> snd ` set (foldl (\<lambda>c cid. AList.update cid (0::int) c) c0 ids). v = 0"
proof (induction ids arbitrary: c0)
  case Nil
  then show ?case by simp
next
  case (Cons a ids)
  have "\<forall>v \<in> snd ` set (AList.update a 0 c0). v = 0"
    using Cons.prems by (induction c0) auto
  then show ?case using Cons.IH by simp
qed

lemma foldl_map_entry_absent:
  "\<forall>a \<in> set atoms. ann_marker_id a \<notin> fst ` set c \<Longrightarrow>
   foldl (\<lambda>c a. AList.map_entry (ann_marker_id a) (\<lambda>v. v + 1) c) c atoms = c"
  by (induction atoms) (auto simp: map_entry_absent)

lemma sum_list_zero: "\<forall>v \<in> set vs. v = (0::int) \<Longrightarrow> sum_list vs = 0"
  by (induction vs) auto

lemma window_counts_no_children:
  assumes "\<forall>a \<in> set atoms. ann_marker_id a \<notin> set needed_ids"
  shows "map_of (window_counts needed_ids atoms) ''total_children'' = Some 0"
proof -
  let ?c0 = "foldl (\<lambda>c cid. AList.update cid (0::int) c) [] needed_ids"
  have keys: "fst ` set ?c0 = set needed_ids"
    using keys_zero_counts [of "[]" needed_ids] by simp
  have same: "foldl (\<lambda>c a. AList.map_entry (ann_marker_id a) (\<lambda>v. v + 1) c) ?c0 atoms = ?c0"
    using assms keys by (intro foldl_map_entry_absent) simp
  have "\<forall>v \<in> snd ` set ?c0. v = 0"
    by (rule values_zero_counts) simp
  then have "sum_list (map snd ?c0) = 0"
    by (intro sum_list_zero) simp
  then show ?thesis
    by (simp add: window_counts_def same update_conv')
qed


section \<open>Atomic detection\<close>

lemma set_map_filter_eq: "set (List.map_filter f xs) = {y. \<exists>x \<in> set xs. f x = Some y}"
  by (induction xs) (auto simp: List.map_filter_simps split: option.splits)

lemma set_pattern_hits:
  "set (pattern_hits t mid dems p) =
     {atomic_hit mid s e | s e. (s, e) \<in> set (rx_finditer p t) \<and> s < e
                              \<and> \<not> should_demote_match t s e dems}"
proof -
  have "(\<exists>x \<in> set (rx_finditer p t).
           (case x of (start, end') \<Rightarrow>
              if end' \<le> start then None
              else if should_demote_match t start end' dems then None
              else Some (atomic_hit mid start end')) = Some y)
        \<longleftrightarrow> (\<exists>s e. y = atomic_hit mid s e \<and> (s, e) \<in> set (rx_finditer p t) \<and> s < e
                       \<and> \<not> should_demote_match t s e dems)" for y
  proof
    assume "\<exists>x \<in> set (rx_finditer p t).
           (case x of (start, end') \<Rightarrow>
              if end' \<le> start then None
              else if should_demote_match t start end' dems then None
              else Some (atomic_hit mid start end')) = Some y"
    then obtain s e where "(s, e) \<in> set (rx_finditer p t)"
      and "(if e \<le> s then None
            else if should_demote_match t s e dems then None
            else Some (atomic_hit mid s e)) = Some y"
      by auto
    then show "\<exists>s e. y = atomic_hit mid s e \<and> (s, e) \<in> set (rx_finditer p t) \<and> s < e
                       \<and> \<not> should_demote_match t s e dems"
      by (intro exI [of _ s] exI [of _ e]) (auto split: if_splits)
  next
    assume "\<exists>s e. y = atomic_hit mid s e \<and> (s, e) \<in> set (rx_finditer p t) \<and> s < e
                       \<and> \<not> should_demote_match t s e dems"
    then obtain s e where "y = atomic_hit mid s e" and in': "(s, e) \<in> set (rx_finditer p t)"
      and "s < e" and "\<not> should_demote_match t s e dems"
      by auto
    then show "\<exists>x \<in> set (rx_finditer p t).
           (case x of (start, end') \<Rightarrow>
              if end' \<le> start then None
              else if should_demote_match t start end' dems then None
              else Some (atomic_hit mid start end')) = Some y"
      by (intro bexI [OF _ in']) simp
  qed
  then show ?thesis
    by (simp add: pattern_hits_def set_map_filter_eq)
qed

lemma set_detect_atomics:
  "set (detect_atomics t rx) =
     {atomic_hit mid s e | mid ps dems p s e.
        (mid, ps, dems) \<in> set rx \<and> p \<in> set ps \<and> (s, e) \<in> set (rx_finditer p t) \<and> s < e
        \<and> \<not> should_demote_match t s e dems}"
  by (auto simp: detect_atomics_def set_pattern_hits) blast+

lemma atomic_hit_inject:
  "atomic_hit mid s e = atomic_hit mid' s' e' \<longleftrightarrow> mid = mid' \<and> s = s' \<and> e = e'"
  by (auto simp: atomic_hit_def)

lemma detect_atomics_drops_iff:
  assumes "(mid, ps, dems) \<in> set rx" and "distinct (map fst rx)"
    and "p \<in> set ps" and "(s, e) \<in> set (rx_finditer p t)" and "s < e"
  shows "atomic_hit mid s e \<notin> set (detect_atomics t rx) \<longleftrightarrow> should_demote_match t s e dems"
proof
  assume "atomic_hit mid s e \<notin> set (detect_atomics t rx)"
  then show "should_demote_match t s e dems"
    using assms by (auto simp: set_detect_atomics)
next
  assume d: "should_demote_match t s e dems"
  show "atomic_hit mid s e \<notin> set (detect_atomics t rx)"
  proof
    assume "atomic_hit mid s e \<in> set (detect_atomics t rx)"
    then obtain ps' dems' where in': "(mid, ps', dems') \<in> set rx"
      and nd: "\<not> should_demote_match t s e dems'"
      by (auto simp: set_detect_atomics atomic_hit_inject)
    have "(ps', dems') = (ps, dems)"
      using assms(1,2) in' by (meson eq_key_imp_eq_value)
    with nd d show False by simp
  qed
qed

lemma should_demote_match_iff:
  "should_demote_match t s e dems \<longleftrightarrow>
     (\<exists>d \<in> set dems. rx_fullmatch d (py_slice t s e))
     \<or> (\<exists>d \<in> set dems. \<exists>(ds, de) \<in> set (rx_finditer d t). \<not> (de \<le> s \<or> e \<le> ds))"
  by (auto simp: should_demote_match_def list_ex_iff)

lemma distinct_compile_atomic_regex: "distinct (map fst (compile_atomic_regex c))"
proof -
  have "distinct (map fst rx) \<Longrightarrow>
        distinct (map fst (foldl (\<lambda>rx m. AList.update (m_id m)
                      (compiled (m_detects m), compiled (m_demote_if m)) rx)
           rx ms))" for rx ms
    by (induction ms arbitrary: rx) (simp_all add: distinct_update)
  from this [of "[]" "atomics c"] show ?thesis by (simp add: compile_atomic_regex_def)
qed







subsection \<open>Scores of the hits of \<^verbatim>\<open>_pattern_based_detection\<close>\<close>
















section \<open>The sentence segmenter\<close>

lemma chained_snoc:
  "chained t (out @ [(s, e)]) \<longleftrightarrow>
     chained t out \<and> s \<le> e
     \<and> (out = [] \<or> s = snd (last out) \<or> (s = snd (last out) + 1 \<and> 0 \<le> snd (last out)
                                            \<and> t ! nat (snd (last out)) = 10))"
  by (induction t out rule: chained.induct) auto

lemma skip_closing_bounds: "j \<le> length t \<Longrightarrow> j \<le> skip_closing t j \<and> skip_closing t j \<le> length t"
  by (induction t j rule: skip_closing.induct) (subst (1 2) skip_closing.simps, auto)

lemma sentence_loop_inv:
  assumes "seg_inv t start out" and "start \<le> i" and "i \<le> length t"
  shows "seg_inv t (snd (sentence_loop t i start out)) (fst (sentence_loop t i start out))"
  using assms
proof (induction t i start out rule: sentence_loop.induct)
  case (1 t i start out)
  show ?case
  proof (cases "i < length t")
    case False
    then show ?thesis using "1.prems" by (subst (1 2) sentence_loop.simps) simp
  next
    case True
    define j where "j = skip_closing t (i + 1)"
    have jb: "i + 1 \<le> j" "j \<le> length t"
      using skip_closing_bounds [of "i + 1" t] True by (simp_all add: j_def)
    consider (ender) "t ! i \<in> set enders \<and> (j \<ge> length t \<or> isspace (t ! j))"
      | (para) "\<not> (t ! i \<in> set enders \<and> (j \<ge> length t \<or> isspace (t ! j)))"
          "t ! i = 10 \<and> i + 1 < length t \<and> (t ! (i + 1) = 10 \<or> t ! (i + 1) = 13)"
      | (step) "\<not> (t ! i \<in> set enders \<and> (j \<ge> length t \<or> isspace (t ! j)))"
          "\<not> (t ! i = 10 \<and> i + 1 < length t \<and> (t ! (i + 1) = 10 \<or> t ! (i + 1) = 13))"
      by blast
    then show ?thesis
    proof cases
      case ender
      have inv: "seg_inv t j (out @ [(int start, int j)])"
        using "1.prems" jb by (auto simp: seg_inv_def chained_snoc hd_append)
      have "seg_inv t (snd (sentence_loop t j j (out @ [(int start, int j)])))
                      (fst (sentence_loop t j j (out @ [(int start, int j)])))"
        using "1.IH"(1) [OF True refl j_def [symmetric, THEN sym]] ender inv jb
        by (simp add: j_def)
      then show ?thesis
        using True ender by (subst (1 2) sentence_loop.simps) (simp add: j_def Let_def)
    next
      case para
      have inv: "seg_inv t (i + 1) (out @ [(int start, int i)])"
        using "1.prems" para by (auto simp: seg_inv_def chained_snoc hd_append)
      have "seg_inv t (snd (sentence_loop t (i + 1) (i + 1) (out @ [(int start, int i)])))
                      (fst (sentence_loop t (i + 1) (i + 1) (out @ [(int start, int i)])))"
        using "1.IH"(2) [OF True refl j_def [symmetric, THEN sym]] para inv
        by (simp add: j_def)
      then show ?thesis
        using True para by (subst (1 2) sentence_loop.simps) (auto simp: j_def Let_def)
    next
      case step
      have "seg_inv t (snd (sentence_loop t (i + 1) start out))
                      (fst (sentence_loop t (i + 1) start out))"
        using "1.IH"(3) [OF True refl j_def [symmetric, THEN sym]] step "1.prems" True
        by (simp add: j_def)
      then show ?thesis
        using True step by (subst (1 2) sentence_loop.simps) (auto simp: j_def Let_def)
    qed
  qed
qed

lemma seg_inv_sentence_boundaries:
  "chained t (sentence_boundaries t)
   \<and> (sentence_boundaries t \<noteq> [] \<longrightarrow> fst (hd (sentence_boundaries t)) = 0)
   \<and> (t \<noteq> [] \<longrightarrow> sentence_boundaries t \<noteq> []
         \<and> snd (last (sentence_boundaries t)) = int (length t))
   \<and> (t = [] \<longrightarrow> sentence_boundaries t = [])"
proof -
  obtain out start where r: "sentence_loop t 0 0 [] = (out, start)"
    by (cases "sentence_loop t 0 0 []")
  have "seg_inv t 0 []" by (simp add: seg_inv_def)
  then have "seg_inv t (snd (sentence_loop t 0 0 [])) (fst (sentence_loop t 0 0 []))"
    by (rule sentence_loop_inv) simp_all
  then have inv: "seg_inv t start out" by (simp add: r)
  show ?thesis
  proof (cases "t = []")
    case True
    then show ?thesis
      by (simp add: sentence_boundaries_def sentence_loop.simps)
  next
    case ne: False
    show ?thesis
    proof (cases "start < length t")
      case True
      then have "sentence_boundaries t = out @ [(int start, int (length t))]"
        by (simp add: sentence_boundaries_def r)
      then show ?thesis
        using inv True by (auto simp: seg_inv_def chained_snoc hd_append)
    next
      case False
      then have "sentence_boundaries t = out"
        by (simp add: sentence_boundaries_def r)
      then show ?thesis
        using inv False ne by (auto simp: seg_inv_def)
    qed
  qed
qed

lemma chained_tl: "chained t (x # xs) \<Longrightarrow> chained t xs"
  by (cases xs; cases x) auto

lemma chained_nth:
  assumes "chained t xs" and "Suc k < length xs"
  shows "fst (xs ! k) \<le> snd (xs ! k)
         \<and> (fst (xs ! Suc k) = snd (xs ! k)
            \<or> (fst (xs ! Suc k) = snd (xs ! k) + 1 \<and> 0 \<le> snd (xs ! k)
                \<and> t ! nat (snd (xs ! k)) = 10))"
  using assms
proof (induction t xs arbitrary: k rule: chained.induct)
  case (3 t s e s' e' rest)
  show ?case
  proof (cases k)
    case 0
    then show ?thesis using "3.prems" by auto
  next
    case (Suc k')
    then show ?thesis using "3.IH" [of k'] "3.prems" by auto
  qed
qed auto

lemma chained_span: "chained t xs \<Longrightarrow> k < length xs \<Longrightarrow> fst (xs ! k) \<le> snd (xs ! k)"
proof (induction t xs arbitrary: k rule: chained.induct)
  case (3 t s e s' e' rest)
  then show ?case by (cases k) auto
qed auto

lemma chained_step: "chained t xs \<Longrightarrow> Suc k < length xs \<Longrightarrow> snd (xs ! k) \<le> fst (xs ! Suc k)"
  using chained_nth [of t xs k] by auto

lemma chained_mono:
  assumes "chained t xs" and "i < j" and "j < length xs"
  shows "snd (xs ! i) \<le> fst (xs ! j)"
  using assms(2,3)
proof (induction j)
  case 0
  then show ?case by simp
next
  case (Suc j)
  show ?case
  proof (cases "i = j")
    case True
    then show ?thesis using chained_step [OF assms(1)] Suc.prems by simp
  next
    case False
    then have "snd (xs ! i) \<le> fst (xs ! j)" using Suc by simp
    also have "\<dots> \<le> snd (xs ! j)" using chained_span [OF assms(1)] Suc.prems by simp
    also have "\<dots> \<le> fst (xs ! Suc j)" using chained_step [OF assms(1)] Suc.prems by simp
    finally show ?thesis .
  qed
qed

lemma chained_fst_mono:
  assumes "chained t xs" and "i \<le> j" and "j < length xs"
  shows "fst (xs ! i) \<le> fst (xs ! j)"
proof (cases "i = j")
  case False
  then have "i < j" using assms(2) by simp
  then have "snd (xs ! i) \<le> fst (xs ! j)" using chained_mono assms by blast
  moreover have "fst (xs ! i) \<le> snd (xs ! i)" using chained_span assms by simp
  ultimately show ?thesis by simp
qed simp

lemma chained_snd_mono:
  assumes "chained t xs" and "i \<le> j" and "j < length xs"
  shows "snd (xs ! i) \<le> snd (xs ! j)"
proof (cases "i = j")
  case False
  then have "i < j" using assms(2) by simp
  then have "snd (xs ! i) \<le> fst (xs ! j)" using chained_mono assms by blast
  moreover have "fst (xs ! j) \<le> snd (xs ! j)" using chained_span assms by simp
  ultimately show ?thesis by simp
qed simp

lemma sentence_bounds:
  assumes "k < length (sentence_boundaries t)"
  shows "0 \<le> fst (sentence_boundaries t ! k)
         \<and> fst (sentence_boundaries t ! k) \<le> snd (sentence_boundaries t ! k)
         \<and> snd (sentence_boundaries t ! k) \<le> int (length t)"
proof -
  let ?xs = "sentence_boundaries t"
  have ch: "chained t ?xs" and hd0: "fst (hd ?xs) = 0"
    using seg_inv_sentence_boundaries [of t] assms by auto
  have ne: "t \<noteq> []" using seg_inv_sentence_boundaries [of t] assms by auto
  then have lst: "snd (last ?xs) = int (length t)"
    using seg_inv_sentence_boundaries [of t] by auto
  have "fst (?xs ! 0) \<le> fst (?xs ! k)"
    using chained_fst_mono [OF ch, of 0 k] assms by simp
  moreover have "?xs \<noteq> []" using assms by auto
  then have "fst (?xs ! 0) = 0" using hd0 by (simp add: hd_conv_nth)
  moreover have "snd (?xs ! k) \<le> snd (?xs ! (length ?xs - 1))"
    using chained_snd_mono [OF ch, of k "length ?xs - 1"] assms by simp
  moreover have "snd (?xs ! (length ?xs - 1)) = int (length t)"
    using lst \<open>?xs \<noteq> []\<close> by (simp add: last_conv_nth)
  ultimately show ?thesis using chained_span [OF ch assms] by simp
qed




section \<open>Span policies\<close>

lemma get_sentence_idx_Some:
  "get_sentence_idx xs pos = Some k \<Longrightarrow>
     k < length xs \<and> fst (xs ! k) \<le> pos \<and> pos < snd (xs ! k)"
proof (induction xs pos arbitrary: k rule: get_sentence_idx.induct)
  case (1 pos)
  then show ?case by simp
next
  case (2 sent_start sent_end rest pos)
  show ?case
  proof (cases "sent_start \<le> pos \<and> pos < sent_end")
    case True
    then show ?thesis using "2.prems" by auto
  next
    case False
    then obtain k' where k': "get_sentence_idx rest pos = Some k'" and k: "k = Suc k'"
      using "2.prems" by auto
    then show ?thesis using "2.IH" [OF False k'] by simp
  qed
qed

lemma foldl_enumerate_last:
  "foldl (\<lambda>v (i, x). if P x then int i else v) d (enumerate n xs) = d
   \<or> (\<exists>i < length xs. foldl (\<lambda>v (i, x). if P x then int i else v) d (enumerate n xs) = int (n + i)
         \<and> P (xs ! i))"
proof (induction xs arbitrary: d n)
  case Nil
  then show ?case by simp
next
  case (Cons x xs)
  let ?d' = "if P x then int n else d"
  from Cons [of ?d' "Suc n"] show ?case
  proof
    assume a: "foldl (\<lambda>v (i, x). if P x then int i else v) ?d' (enumerate (Suc n) xs) = ?d'"
    show ?thesis
    proof (cases "P x")
      case True
      then have "foldl (\<lambda>v (i, x). if P x then int i else v) d (enumerate n (x # xs)) = int (n + 0)
                 \<and> P ((x # xs) ! 0)"
        using a by simp
      then show ?thesis by blast
    next
      case False
      then show ?thesis using a by simp
    qed
  next
    assume "\<exists>i < length xs.
              foldl (\<lambda>v (i, x). if P x then int i else v) ?d' (enumerate (Suc n) xs)
                = int (Suc n + i) \<and> P (xs ! i)"
    then obtain i where "i < length xs"
      and "foldl (\<lambda>v (i, x). if P x then int i else v) ?d' (enumerate (Suc n) xs) = int (Suc n + i)"
      and "P (xs ! i)"
      by blast
    then have "Suc i < length (x # xs)
       \<and> foldl (\<lambda>v (i, x). if P x then int i else v) d (enumerate n (x # xs)) = int (n + Suc i)
       \<and> P ((x # xs) ! Suc i)"
      by simp
    then show ?thesis by blast
  qed
qed

lemma last_index_where_cases:
  "last_index_where P xs d = d
   \<or> (\<exists>i < length xs. last_index_where P xs d = int i \<and> P (xs ! i))"
  using foldl_enumerate_last [of P d 0 xs] by (simp add: last_index_where_def)

lemma sentence_union_loop_bounds:
  assumes "0 \<le> iL" and "iL \<le> iR" and "iR \<le> N - 1"
  shows "0 \<le> fst (sentence_union_loop N need step iL iR)
         \<and> fst (sentence_union_loop N need step iL iR) \<le> iL
         \<and> iR \<le> snd (sentence_union_loop N need step iL iR)
         \<and> snd (sentence_union_loop N need step iL iR) \<le> N - 1"
  using assms
proof (induction N need step iL iR rule: sentence_union_loop.induct)
  case (1 N need step iL iR)
  show ?case
  proof (cases "need > 0 \<and> (iL > 0 \<or> iR < N - 1)")
    case False
    then have "sentence_union_loop N need step iL iR = (iL, iR)"
      by (subst sentence_union_loop.simps) auto
    then show ?thesis using "1.prems" by simp
  next
    case True
    consider (right) "step mod 2 = 0 \<and> iR < N - 1"
      | (left) "\<not> (step mod 2 = 0 \<and> iR < N - 1)" "iL > 0"
      | (stay) "\<not> (step mod 2 = 0 \<and> iR < N - 1)" "\<not> iL > 0"
      by blast
    then show ?thesis
    proof cases
      case right
      have "sentence_union_loop N need step iL iR
              = sentence_union_loop N (need - 1) (step + 1) iL (iR + 1)"
        using True right by (subst sentence_union_loop.simps) auto
      then show ?thesis
        using "1.IH"(1) [OF True right] "1.prems" right by simp
    next
      case left
      have "sentence_union_loop N need step iL iR
              = sentence_union_loop N (need - 1) (step + 1) (iL - 1) iR"
        using True left by (subst sentence_union_loop.simps) auto
      then show ?thesis
        using "1.IH"(2) [OF True left] "1.prems" left by simp
    next
      case stay
      have "sentence_union_loop N need step iL iR
              = sentence_union_loop N (need - 1) (step + 1) iL iR"
        using True stay by (subst sentence_union_loop.simps) auto
      then show ?thesis
        using "1.IH"(3) [OF True stay] "1.prems" by simp
    qed
  qed
qed

lemma py_rfind_bounds: "py_rfind t ch e = - 1 \<or> (0 \<le> py_rfind t ch e \<and> py_rfind t ch e < e)"
proof (cases "rev (filter (\<lambda>i. t ! i = ch) [0..<min (nat e) (length t)])")
  case Nil
  then show ?thesis by (simp add: py_rfind_def)
next
  case (Cons i rest)
  then have "i \<in> set (filter (\<lambda>i. t ! i = ch) [0..<min (nat e) (length t)])"
    by (metis list.set_intros(1) set_rev)
  then have "i < nat e" by simp
  then show ?thesis using Cons by (simp add: py_rfind_def)
qed

lemma py_find_bounds:
  "py_find t ch s = - 1 \<or> (s \<le> py_find t ch s \<and> py_find t ch s < int (length t))"
proof (cases "filter (\<lambda>i. t ! i = ch) [nat s..<length t]")
  case Nil
  then show ?thesis by (simp add: py_find_def)
next
  case (Cons i rest)
  then have "i \<in> set (filter (\<lambda>i. t ! i = ch) [nat s..<length t])"
    by (metis list.set_intros(1))
  then have "nat s \<le> i \<and> i < length t" by simp
  then show ?thesis using Cons by (auto simp: py_find_def)
qed

lemma clause_union_bounds:
  assumes "0 \<le> start" and "start < end'" and "end' \<le> int (length t)"
  shows "0 \<le> fst (clause_union t start end')
         \<and> fst (clause_union t start end') \<le> start
         \<and> end' \<le> snd (clause_union t start end')
         \<and> snd (clause_union t start end') \<le> int (length t)"
proof -
  have l: "max (py_rfind t 44 start) (py_rfind t 59 start) < start"
    using py_rfind_bounds [of t 44 start] py_rfind_bounds [of t 59 start] assms(1) by auto
  have r: "\<forall>x \<in> set (filter (\<lambda>x. x \<noteq> - 1) [py_find t 44 end', py_find t 59 end']). end' \<le> x"
    using py_find_bounds [of t 44 end'] py_find_bounds [of t 59 end'] by auto
  have r': "filter (\<lambda>x. x \<noteq> - 1) [py_find t 44 end', py_find t 59 end'] \<noteq> [] \<Longrightarrow>
            end' \<le> Min (set (filter (\<lambda>x. x \<noteq> - 1) [py_find t 44 end', py_find t 59 end']))"
    using r by (subst Min_ge_iff) auto
  show ?thesis
    using l r' assms by (auto simp: clause_union_def Let_def simp del: filter.simps)
qed

lemma apply_span_policy_bounds:
  assumes ch: "chained t sentences"
    and sb: "\<forall>k < length sentences. 0 \<le> fst (sentences ! k) \<and> snd (sentences ! k) \<le> int (length t)"
    and w: "0 \<le> start" "start < end'" "end' \<le> int (length t)"
    and ok: "window_around_anchor policy"
  shows "0 \<le> fst (apply_span_policy policy t sentences start end')
         \<and> fst (apply_span_policy policy t sentences start end')
             < snd (apply_span_policy policy t sentences start end')
         \<and> snd (apply_span_policy policy t sentences start end') \<le> int (length t)"
proof -
  define mode where "mode = (case sp_mode policy of Some m \<Rightarrow> m | None \<Rightarrow> ''anchor_window'')"
  consider (sentence) "mode = ''sentence_union''"
    | (clause) "mode \<noteq> ''sentence_union''" "mode = ''clause_union''"
    | (anchor) "mode \<noteq> ''sentence_union''" "mode \<noteq> ''clause_union''"
    by blast
  then show ?thesis
  proof cases
    case clause
    then have "apply_span_policy policy t sentences start end' = clause_union t start end'"
      by (simp add: apply_span_policy_def mode_def)
    then show ?thesis using clause_union_bounds [OF w] w by simp
  next
    case anchor
    then have modes: "sp_mode policy \<noteq> Some ''sentence_union''" "sp_mode policy \<noteq> Some ''clause_union''"
      by (auto simp: mode_def)
    obtain l r where lr: "(case sp_window_tokens policy of Some w \<Rightarrow> w | None \<Rightarrow> (- 8, 8)) = (l, r)"
      by (cases "case sp_window_tokens policy of Some w \<Rightarrow> w | None \<Rightarrow> (- 8, 8)") auto
    have "l \<le> 0 \<and> 0 \<le> r"
      using ok modes lr by (auto simp: window_around_anchor_def split: option.splits)
    moreover have "apply_span_policy policy t sentences start end'
                     = (max 0 (start + l * 4), min (int (length t)) (end' + r * 4))"
      using anchor lr by (simp add: apply_span_policy_def mode_def Let_def)
    ultimately show ?thesis using w by auto
  next
    case sentence
    define mid where "mid = (start + end') div 2"
    have mid: "start \<le> mid" "mid < end'" using w by (auto simp: mid_def)
    show ?thesis
    proof (cases "get_sentence_idx sentences mid")
      case None
      then have "apply_span_policy policy t sentences start end' = (start, end')"
        using sentence by (simp add: apply_span_policy_def mode_def mid_def Let_def)
      then show ?thesis using w by simp
    next
      case (Some x)
      then have x: "x < length sentences" "fst (sentences ! x) \<le> mid" "mid < snd (sentences ! x)"
        using get_sentence_idx_Some by blast+
      define iL where "iL = last_index_where
                               (\<lambda>(s_start, s_end). s_start \<le> start \<and> start < s_end)
                               sentences (int x)"
      define iR where "iR = last_index_where
                               (\<lambda>(s_start, s_end). s_start < end' \<and> end' \<le> s_end)
                               sentences (int x)"
      define max_sentences where
        "max_sentences = (case sp_max_sentence_span policy of Some m \<Rightarrow> m | None \<Rightarrow> 1)"
      have iL: "0 \<le> iL \<and> iL \<le> int x"
      proof -
        from last_index_where_cases
          [of "\<lambda>(s_start, s_end). s_start \<le> start \<and> start < s_end" sentences "int x"]
        show ?thesis
        proof
          assume "last_index_where (\<lambda>(s_start, s_end). s_start \<le> start \<and> start < s_end)
                    sentences (int x) = int x"
          then show ?thesis by (simp add: iL_def)
        next
          assume "\<exists>i<length sentences.
                    last_index_where (\<lambda>(s_start, s_end). s_start \<le> start \<and> start < s_end)
                      sentences (int x) = int i
                    \<and> (case sentences ! i of (s_start, s_end) \<Rightarrow> s_start \<le> start \<and> start < s_end)"
          then obtain i where i: "i < length sentences" "iL = int i"
            and p: "fst (sentences ! i) \<le> start" "start < snd (sentences ! i)"
            by (auto simp: iL_def case_prod_beta)
          have "\<not> x < i"
          proof
            assume "x < i"
            then have "snd (sentences ! x) \<le> fst (sentences ! i)"
              using chained_mono [OF ch] i(1) by simp
            then show False using p(1) mid(1) x(3) by simp
          qed
          then show ?thesis using i(2) by simp
        qed
      qed
      have iR: "int x \<le> iR \<and> iR \<le> int (length sentences) - 1"
      proof -
        from last_index_where_cases
          [of "\<lambda>(s_start, s_end). s_start < end' \<and> end' \<le> s_end" sentences "int x"]
        show ?thesis
        proof
          assume "last_index_where (\<lambda>(s_start, s_end). s_start < end' \<and> end' \<le> s_end)
                    sentences (int x) = int x"
          then show ?thesis using x(1) by (simp add: iR_def)
        next
          assume "\<exists>i<length sentences.
                    last_index_where (\<lambda>(s_start, s_end). s_start < end' \<and> end' \<le> s_end)
                      sentences (int x) = int i
                    \<and> (case sentences ! i of (s_start, s_end) \<Rightarrow> s_start < end' \<and> end' \<le> s_end)"
          then obtain i where i: "i < length sentences" "iR = int i"
            and p: "fst (sentences ! i) < end'" "end' \<le> snd (sentences ! i)"
            by (auto simp: iR_def case_prod_beta)
          have "\<not> i < x"
          proof
            assume "i < x"
            then have "snd (sentences ! i) \<le> fst (sentences ! x)"
              using chained_mono [OF ch] x(1) by simp
            then show False using p(2) mid(2) x(2) by simp
          qed
          then show ?thesis using i by simp
        qed
      qed
      define need where "need = max 1 max_sentences - (iR - iL + 1)"
      obtain a b where ab: "sentence_union_loop (int (length sentences)) need 0 iL iR = (a, b)"
        by (cases "sentence_union_loop (int (length sentences)) need 0 iL iR")
      have bounds: "0 \<le> a \<and> a \<le> iL \<and> iR \<le> b \<and> b \<le> int (length sentences) - 1"
        using sentence_union_loop_bounds [of iL iR "int (length sentences)" need 0] iL iR ab
        by simp
      have res: "apply_span_policy policy t sentences start end'
                   = (fst (sentences ! nat a), snd (sentences ! nat b))"
        using sentence Some ab
        by (simp add: apply_span_policy_def mode_def mid_def [symmetric] Let_def iL_def [symmetric]
            iR_def [symmetric] max_sentences_def [symmetric] sentence_union_def need_def [symmetric])
      have na: "nat a \<le> x" and nb: "x \<le> nat b" and nbl: "nat b < length sentences"
        using bounds iL iR x(1) by auto
      have "fst (sentences ! nat a) \<le> fst (sentences ! x)"
        using chained_fst_mono [OF ch na x(1)] .
      moreover have "snd (sentences ! x) \<le> snd (sentences ! nat b)"
        using chained_snd_mono [OF ch nb nbl] .
      moreover have "0 \<le> fst (sentences ! nat a)" using sb na x(1) by simp
      moreover have "snd (sentences ! nat b) \<le> int (length t)" using sb nbl by simp
      ultimately show ?thesis using res x(2,3) by simp
    qed
  qed
qed

section \<open>Bounds of the annotations\<close>

lemma first_hit_Some: "first_hit f xs = Some y \<Longrightarrow> \<exists>x \<in> set xs. f x = Some y"
  by (induction xs) (auto split: option.splits)

lemma set_alist_update: "set (AList.update k v al) \<subseteq> insert (k, v) (set al)"
  by (induction al) auto

lemma compile_atomic_regex_entries:
  assumes "(mid, ps, dems) \<in> set (compile_atomic_regex c)"
  shows "\<exists>m \<in> set (atomics c). ps = compiled (m_detects m)"
proof -
  have "(mid, ps, dems) \<in> set (foldl (\<lambda>rx m. AList.update (m_id m)
                      (compiled (m_detects m), compiled (m_demote_if m)) rx)
           rx ms)
        \<Longrightarrow> (mid, ps, dems) \<in> set rx \<or> (\<exists>m \<in> set ms. ps = compiled (m_detects m))"
    for rx ms
  proof (induction ms arbitrary: rx)
    case Nil
    then show ?case by simp
  next
    case (Cons m ms)
    have "(mid, ps, dems) \<in> set (foldl (\<lambda>rx m. AList.update (m_id m)
                      (compiled (m_detects m), compiled (m_demote_if m)) rx)
           (AList.update (m_id m)
              (compiled (m_detects m), compiled (m_demote_if m)) rx) ms)"
      using Cons.prems by (simp only: foldl_Cons)
    from Cons.IH [OF this]
    show ?case
    proof
      assume "(mid, ps, dems) \<in> set (AList.update (m_id m)
                (compiled (m_detects m), compiled (m_demote_if m)) rx)"
      then have "(mid, ps, dems) \<in> set rx
                 \<or> (mid, ps, dems) = (m_id m, compiled (m_detects m), compiled (m_demote_if m))"
        using set_alist_update [of "m_id m" _ rx] by blast
      then show ?thesis by auto
    next
      assume "\<exists>m \<in> set ms. ps = compiled (m_detects m)"
      then show ?thesis by auto
    qed
  qed
  from this [of "[]" "atomics c"] assms show ?thesis
    by (simp add: compile_atomic_regex_def)
qed

lemma detect_atomics_in_text:
  assumes "a \<in> set (detect_atomics t (compile_atomic_regex (Canon markers)))"
    and "detects_within t markers"
  shows "in_text t a"
proof -
  from assms(1) obtain mid ps dems p s e where
    e: "(mid, ps, dems) \<in> set (compile_atomic_regex (Canon markers))"
    and p: "p \<in> set ps" and se: "(s, e) \<in> set (rx_finditer p t)" "s < e"
    and a: "a = atomic_hit mid s e"
    by (auto simp: set_detect_atomics)
  from compile_atomic_regex_entries [OF e]
  obtain m where m: "m \<in> set (atomics (Canon markers))" and ps: "ps = compiled (m_detects m)"
    by blast
  have "m \<in> set markers" using m by (simp add: Canon_def)
  moreover have "Some p \<in> set (m_detects m)"
    using p ps by (auto simp: compiled_def set_map_filter_eq)
  ultimately have "spans_within p t"
    using assms(2) by (force simp: detects_within_def list_all_iff)
  then have "0 \<le> s \<and> e \<le> int (length t)"
    using se(1) by (auto simp: spans_within_def list_all_iff)
  then show ?thesis using se(2) a by (simp add: in_text_def atomic_hit_def)
qed

lemma analyze_bundle_fwd:
  "annotations (analyze_text (str ''x y.'') bundle_fwd [] no_weights) =
     [hit ''ATO_X'' ''ATO'' 0 1 1, hit ''ATO_Y'' ''ATO'' 2 3 1, hit ''SEM_FWD'' ''SEM'' 4 4 1]"
  by (simp add: analyze_text_def bundle_fwd_def sem_fwd_def sb_defs atomic_defs compose_defs
      resolve_defs hit_def Let_def)

lemma apply_span_policy_bounds_any:
  assumes ch: "chained t sentences"
    and sb: "\<forall>k < length sentences. 0 \<le> fst (sentences ! k) \<and> snd (sentences ! k) \<le> int (length t)"
    and w: "0 \<le> start" "start < end'" "end' \<le> int (length t)"
  shows "0 \<le> fst (apply_span_policy policy t sentences start end')
         \<and> snd (apply_span_policy policy t sentences start end') \<le> int (length t)"
proof (cases "window_around_anchor policy")
  case True
  then show ?thesis using apply_span_policy_bounds [OF ch sb w] by simp
next
  case False
  then show ?thesis
    by (auto simp: apply_span_policy_def window_around_anchor_def Let_def split: option.splits)
qed

lemma window_hit_bounds:
  assumes hit: "window_hit t (sentence_boundaries t)
                  (per_sentence (sentence_boundaries t) atoms) m i0 ws = Some a"
    and i0: "i0 < length (sentence_boundaries t)" and ws: "1 \<le> ws"
  shows "ann_marker_id a = m_id m \<and> 0 \<le> ann_start a \<and> ann_end a \<le> int (length t)
         \<and> (anchored m \<longrightarrow> ann_start a < ann_end a)"
proof -
  let ?S = "sentence_boundaries t"
  let ?P = "per_sentence ?S atoms"
  define iR where "iR = nat (min (int (length ?S) - 1) (int i0 + ws - 1))"
  define policy where
    "policy = (case m_span_policy m of Some p \<Rightarrow> p | None \<Rightarrow> default_span_policy)"
  have iR: "i0 \<le> iR" "iR < length ?S" using i0 ws by (auto simp: iR_def)
  have ch: "chained t ?S" using seg_inv_sentence_boundaries by blast
  have sb: "\<forall>k < length ?S. 0 \<le> fst (?S ! k) \<and> snd (?S ! k) \<le> int (length t)"
    using sentence_bounds by blast
  have pok: "window_around_anchor policy" if "anchored m"
    using that by (auto simp: anchored_def policy_def default_span_policy_def
        window_around_anchor_def split: option.splits)
  have nz: "map_of (window_counts (map fst (m_composed_of m)) (window_atomics ?S ?P i0 ws))
              ''total_children'' \<noteq> Some 0"
    using hit by (auto simp: window_hit_def Let_def split: if_splits)
  then have "\<not> (\<forall>x \<in> set (window_atomics ?S ?P i0 ws).
                 ann_marker_id x \<notin> set (map fst (m_composed_of m)))"
    using window_counts_no_children by blast
  then obtain x where "x \<in> set (window_atomics ?S ?P i0 ws)" by blast
  then obtain k where k: "i0 \<le> k" "k \<le> iR" and xk: "x \<in> set (?P ! k)"
    by (auto simp: window_atomics_def Let_def iR_def [symmetric])
  have kl: "k < length ?S" using k iR by simp
  then have "get_sentence_idx ?S (mid_of x) = Some k"
    using xk by (simp add: per_sentence_def)
  then have "fst (?S ! k) \<le> mid_of x \<and> mid_of x < snd (?S ! k)"
    using get_sentence_idx_Some by blast
  then have proper: "fst (?S ! k) < snd (?S ! k)" by simp
  have "fst (?S ! i0) \<le> fst (?S ! k)" using chained_fst_mono [OF ch k(1) kl] .
  moreover have "snd (?S ! k) \<le> snd (?S ! iR)" using chained_snd_mono [OF ch k(2) iR(2)] .
  ultimately have w: "0 \<le> fst (?S ! i0)" "fst (?S ! i0) < snd (?S ! iR)"
    "snd (?S ! iR) \<le> int (length t)"
    using proper sb i0 iR(2) by auto
  have a: "ann_start a = fst (apply_span_policy policy t ?S (fst (?S ! i0)) (snd (?S ! iR)))"
    "ann_end a = snd (apply_span_policy policy t ?S (fst (?S ! i0)) (snd (?S ! iR)))"
    "ann_marker_id a = m_id m"
    using hit
    by (auto simp: window_hit_def Let_def iR_def [symmetric] policy_def [symmetric]
        split: if_splits)
  show ?thesis
    using apply_span_policy_bounds [OF ch sb w pok]
      apply_span_policy_bounds_any [OF ch sb w, of policy] a by simp
qed

lemma compose_marker_bounds:
  assumes "a \<in> set (compose_marker t (sentence_boundaries t)
                       (per_sentence (sentence_boundaries t) atoms) m)"
  shows "ann_marker_id a = m_id m \<and> 0 \<le> ann_start a \<and> ann_end a \<le> int (length t)
         \<and> (anchored m \<longrightarrow> ann_start a < ann_end a)"
proof -
  let ?S = "sentence_boundaries t"
  let ?P = "per_sentence ?S atoms"
  from assms(1) obtain i0 mx where i0: "i0 < length ?S"
    and fh: "first_hit (window_hit t ?S ?P m i0) [1..mx] = Some a"
    by (auto simp: compose_marker_def Let_def set_map_filter_eq split: if_splits)
  then obtain ws where "ws \<in> set [1..mx]" and "window_hit t ?S ?P m i0 ws = Some a"
    using first_hit_Some by fastforce
  then show ?thesis
    using window_hit_bounds [of t atoms m i0 ws a] i0 by simp
qed

lemma compose_bounds:
  assumes "a \<in> set (compose t (Canon markers) atoms promotion w)"
  shows "0 \<le> ann_start a \<and> ann_end a \<le> int (length t)
         \<and> (ann_start a < ann_end a \<or> off_anchor_hit markers a)"
proof -
  from assms(1) obtain m where m: "m \<in> set (composed (Canon markers))"
    and a: "a \<in> set (compose_marker t (sentence_boundaries t)
                       (per_sentence (sentence_boundaries t) atoms) m)"
    by (auto simp: compose_def Let_def)
  have mm: "m \<in> set markers" "m_kind m = ''composed''" using m by (simp_all add: Canon_def)
  have b: "ann_marker_id a = m_id m \<and> 0 \<le> ann_start a \<and> ann_end a \<le> int (length t)
         \<and> (anchored m \<longrightarrow> ann_start a < ann_end a)"
    using compose_marker_bounds [OF a] .
  show ?thesis
  proof (cases "anchored m")
    case True
    then show ?thesis using b by simp
  next
    case False
    then have "off_anchor_hit markers a"
      using mm b by (auto simp: off_anchor_hit_def list_ex_iff)
    then show ?thesis using b by simp
  qed
qed

lemma analyze_text_bounds:
  assumes "detects_within t markers"
    and "a \<in> set (annotations (analyze_text t markers promotion w))"
  shows "0 \<le> ann_start a \<and> ann_end a \<le> int (length t)
         \<and> (ann_start a < ann_end a \<or> off_anchor_hit markers a)"
proof -
  have "a \<in> set (detect_atomics t (compile_atomic_regex (Canon markers)) @
        compose t (Canon markers) (detect_atomics t (compile_atomic_regex (Canon markers)))
          promotion w)"
    using assms(2) set_resolve_overlaps unfolding annotations_analyze_text by blast
  then consider
    (atomic) "a \<in> set (detect_atomics t (compile_atomic_regex (Canon markers)))"
    | (composed) "a \<in> set (compose t (Canon markers)
          (detect_atomics t (compile_atomic_regex (Canon markers))) promotion w)"
    by auto
  then show ?thesis
  proof cases
    case atomic
    then show ?thesis using detect_atomics_in_text [OF _ assms(1)] by (simp add: in_text_def)
  next
    case composed
    then show ?thesis by (rule compose_bounds)
  qed
qed

lemma detect_annotation_no_match:
  "list_all (\<lambda>rx. rx_finditer rx t = []) patterns \<Longrightarrow>
     la_start (detect_annotation_in_text mid concept patterns t) = 0
     \<and> la_end (detect_annotation_in_text mid concept patterns t) = 0"
  by (induction patterns) auto

lemma analyze_bundle_aw:
  "annotations (analyze_text (str ''x + y. z.'') bundle_aw [] no_weights) =
     [hit ''SEM_AW'' ''SEM'' 0 9 1]"
  by (simp add: analyze_text_def bundle_aw_def sem_aw_def sb_defs atomic_defs compose_defs
      resolve_defs hit_def Let_def)

lemma bundle_aw_within:
  "detects_within (str ''x + y. z.'') bundle_aw"
  by (simp add: detects_within_def bundle_aw_def sem_aw_def atomic_marker_def literal_rx_def
      spans_within_def str_def)

lemma bundle_aw_anchored: "\<not> off_anchor_hit bundle_aw a"
  by (simp add: off_anchor_hit_def anchored_def window_around_anchor_def bundle_aw_def
      sem_aw_def atomic_marker_def)

lemma bundle_fwd_within:
  "detects_within (str ''x y.'') bundle_fwd"
  by (simp add: detects_within_def bundle_fwd_def sem_fwd_def atomic_marker_def literal_rx_def
      spans_within_def str_def)

section \<open>The composers and \<^verbatim>\<open>min_children\<close>\<close>










lemma min_children_default_cases:
  "min_children_default w =
     (case composed_min_children w of None \<Rightarrow> 1 | Some n \<Rightarrow> if n = 0 then 1 else n)"
  by (simp add: min_children_default_def)

section \<open>Claims about the overlap resolver\<close>




text \<open>
  Claim C1: no two annotations in the final output of \<^verbatim>\<open>analyze_text\<close> overlap: for any two
  of them, one ends at or before the start of the other.
\<close>

theorem C1_output_non_overlapping:
  assumes "i < j" and "j < length (annotations (analyze_text t markers promotion w))"
  shows "ann_end (annotations (analyze_text t markers promotion w) ! i)
           \<le> ann_start (annotations (analyze_text t markers promotion w) ! j)
         \<or> ann_end (annotations (analyze_text t markers promotion w) ! j)
           \<le> ann_start (annotations (analyze_text t markers promotion w) ! i)"
proof -
  let ?out = "annotations (analyze_text t markers promotion w)"
  have "disjoint_list ?out"
    unfolding annotations_analyze_text by (rule resolve_overlaps_disjoint)
  then have "\<not> overlaps (?out ! i) (?out ! j)"
    using assms by (rule disjoint_list_nth)
  then show ?thesis
    by (auto simp: overlaps_def)
qed

theorem C1_output_non_overlapping_witness:
  "length (annotations (analyze_text (str ''x. y.'') two_atoms [] no_weights)) = 2
   \<and> (ann_end (annotations (analyze_text (str ''x. y.'') two_atoms [] no_weights) ! 0)
        \<le> ann_start (annotations (analyze_text (str ''x. y.'') two_atoms [] no_weights) ! 1)
      \<or> ann_end (annotations (analyze_text (str ''x. y.'') two_atoms [] no_weights) ! 1)
        \<le> ann_start (annotations (analyze_text (str ''x. y.'') two_atoms [] no_weights) ! 0))"
proof -
  have len: "length (annotations (analyze_text (str ''x. y.'') two_atoms [] no_weights)) = 2"
    by (simp add: analyze_two_atoms)
  have lt: "(0::nat) < 1" by simp
  have bound: "1 < length (annotations (analyze_text (str ''x. y.'') two_atoms [] no_weights))"
    using len by simp
  show ?thesis
    using len C1_output_non_overlapping [OF lt bound] by (rule conjI)
qed

text \<open>
  Claim C10: the resolver only selects. The output of \<^verbatim>\<open>resolve_overlaps\<close> is a
  sub-multiset of its input (each output annotation is an input annotation, every field as
  it was, and none is used more often than it was given), so it is no longer than the
  input; the same holds for \<^verbatim>\<open>resolve_overlapping_annotations\<close>; and in the result of
  \<^verbatim>\<open>analyze_text\<close>, \<^verbatim>\<open>final_count\<close> is at most \<^verbatim>\<open>atomic_count + composed_count\<close>.
\<close>

theorem C10_resolver_only_selects:
  "mset (resolve_overlaps anns w) \<subseteq># mset anns
   \<and> length (resolve_overlaps anns w) \<le> length anns
   \<and> mset (resolve_overlapping_annotations las) \<subseteq># mset las
   \<and> length (resolve_overlapping_annotations las) \<le> length las
   \<and> final_count (analyze_text t markers promotion w)
       \<le> atomic_count (analyze_text t markers promotion w)
         + composed_count (analyze_text t markers promotion w)"
proof -
  have "length (resolve_overlapping_annotations las) \<le> length las"
    using mset_resolve_overlapping_annotations [of las] size_mset_mono by fastforce
  moreover have "final_count (analyze_text t markers promotion w)
       \<le> atomic_count (analyze_text t markers promotion w)
         + composed_count (analyze_text t markers promotion w)"
    using length_resolve_overlaps
      [of "detect_atomics t (compile_atomic_regex (Canon markers)) @
        compose t (Canon markers) (detect_atomics t (compile_atomic_regex (Canon markers)))
          promotion w" w]
    by (simp add: analyze_text_def Let_def)
  ultimately show ?thesis
    using mset_resolve_overlaps length_resolve_overlaps mset_resolve_overlapping_annotations
    by blast
qed

theorem C10_resolver_only_selects_witness:
  "resolve_overlaps [hit ''ATO_X'' ''ATO'' 0 1 1, hit ''SEM_XY'' ''SEM'' 0 6 1] no_weights
     = [hit ''SEM_XY'' ''SEM'' 0 6 1]
   \<and> mset (resolve_overlaps [hit ''ATO_X'' ''ATO'' 0 1 1, hit ''SEM_XY'' ''SEM'' 0 6 1] no_weights)
       \<subseteq># mset [hit ''ATO_X'' ''ATO'' 0 1 1, hit ''SEM_XY'' ''SEM'' 0 6 1]
   \<and> resolve_overlapping_annotations
       [la_hit ''ATO_X'' ''ATO'' 0 1 (7/10), la_hit ''SEM_XY'' ''SEM'' 0 6 (9/10)]
     = [la_hit ''SEM_XY'' ''SEM'' 0 6 (9/10)]
   \<and> final_count (analyze_text (str ''x. y.'') two_atoms [] no_weights) = 2"
  using C10_resolver_only_selects
    [of "[hit ''ATO_X'' ''ATO'' 0 1 1, hit ''SEM_XY'' ''SEM'' 0 6 1]" no_weights
        "[la_hit ''ATO_X'' ''ATO'' 0 1 (7/10), la_hit ''SEM_XY'' ''SEM'' 0 6 (9/10)]"
        "str ''x. y.''" two_atoms "[]"]
  by (simp add: resolve_defs hit_def ld_resolve_defs analyze_two_atoms)

section \<open>Claims about expressions and promotion\<close>

text \<open>
  Claim C8 (a name that the environment does not bind evaluates as 0, so \<^verbatim>\<open>x < 1\<close> over
  an empty environment is true). \<^verbatim>\<open>sem_core._eval\<close> does this
  (\<^verbatim>\<open>eval_node_unknown_name\<close>). \<^verbatim>\<open>LD35Model._evaluate_expression\<close> does not: there
  the unbound name raises, the exception is caught, and \<^verbatim>\<open>x < 1\<close> over an empty context is
  false.
\<close>

theorem C8_ld35_unknown_name_is_false:
  "evaluate_expression (Some (Parsed (Compare (Name ''x'') [(Lt, Constant 1)]))) Map.empty = False
   \<and> eval_activation (Parsed (Compare (Name ''x'') [(Lt, Constant 1)])) Map.empty = True"
  by (simp add: evaluate_expression_def eval_activation_def OPS_def truthy_def)

text \<open>
  Claim C5 (as stated: a composed hit whose promotion guard fails stays in the output
  unchanged). In \<^verbatim>\<open>LD35Model._detect_composed_markers\<close> the marker \<^verbatim>\<open>SEM_XY\<close> yields a hit
  when it has no promotion rule, and none when it has a rule whose guard \<^verbatim>\<open>score > 2\<close>
  fails.
\<close>

theorem C5_failed_guard_removes_hit_counterexample:
  "detect_composed_markers (str ''x + y. z.'') [(0, 6), (6, 9)] [(0, 1), (4, 5), (7, 8)]
     no_weights [promo_xy] ld_bundle_xy [(''ATO_X'', [(0, 1)]), (''ATO_Y'', [(4, 5)])]
   = Some []
   \<and> detect_composed_markers (str ''x + y. z.'') [(0, 6), (6, 9)] [(0, 1), (4, 5), (7, 8)]
     no_weights [] ld_bundle_xy [(''ATO_X'', [(0, 1)]), (''ATO_Y'', [(4, 5)])]
   = Some [la_hit ''SEM_XY'' ''SEM'' 0 6 1]"
  using composed_ld_bundle_xy composed_ld_bundle_xy_promo by simp

text \<open>
  Claim C5, amended: in \<^verbatim>\<open>LD35Model._detect_composed_markers\<close> a promotion rule gates the
  hit. For a marker with a rule, no hit is emitted when the guard evaluates false or the
  score is below the rule's \<^verbatim>\<open>min_score\<close>; a hit that is emitted carries the rule's
  \<^verbatim>\<open>promote_to\<close> family (the marker's own family when the rule names none) and the
  composed score. \<^verbatim>\<open>sem_core.analyze_text\<close> never consults the promotion rules.
\<close>

theorem C5_promotion_rule_gates_hit:
  assumes "map_of rules (lm_id m) = Some rule"
  shows "(\<not> evaluate_expression (pr_activate_when rule)
              (promo_context (composed_score mm m) (total_children mm m))
          \<or> (\<exists>ms. pr_min_score rule = Some ms \<and> composed_score mm m < ms)
          \<longrightarrow> (\<forall>a. composed_outcome t sentences tokens w rules mm m \<noteq> Emit a))
       \<and> (\<forall>a. composed_outcome t sentences tokens w rules mm m = Emit a
             \<longrightarrow> la_family a = (case pr_promote_to rule of None \<Rightarrow> marker_family m | Some f \<Rightarrow> f)
                 \<and> la_score a = composed_score mm m)
       \<and> analyze_text t' markers promotion w' = analyze_text t' markers [] w'"
proof (intro conjI impI allI)
  fix a
  assume "\<not> evaluate_expression (pr_activate_when rule)
              (promo_context (composed_score mm m) (total_children mm m))
          \<or> (\<exists>ms. pr_min_score rule = Some ms \<and> composed_score mm m < ms)"
  then show "composed_outcome t sentences tokens w rules mm m \<noteq> Emit a"
    using assms
    by (auto simp: composed_outcome_def Let_def split: span_result.splits option.splits)
next
  fix a
  assume e: "composed_outcome t sentences tokens w rules mm m = Emit a"
  then show "la_family a = (case pr_promote_to rule of None \<Rightarrow> marker_family m | Some f \<Rightarrow> f)"
    using assms
    by (auto simp: composed_outcome_def Let_def split: span_result.splits option.splits if_splits)
  from e show "la_score a = composed_score mm m"
    using assms
    by (auto simp: composed_outcome_def Let_def split: span_result.splits option.splits if_splits)
next
  show "analyze_text t' markers promotion w' = analyze_text t' markers [] w'"
    by (simp add: analyze_text_def compose_def)
qed

theorem C5_promotion_rule_gates_hit_witness:
  "composed_outcome (str ''x + y. z.'') [(0, 6), (6, 9)] [(0, 1), (4, 5), (7, 8)] no_weights
     (load_promotion_rules [promo_xy]) [(''ATO_X'', [(0, 1)]), (''ATO_Y'', [(4, 5)])] ld_sem_xy
     \<noteq> Emit (la_hit ''SEM_XY'' ''SEM'' 0 6 1)
   \<and> la_family (la_hit ''SEM_XY'' ''CLU'' 0 6 1) = ''CLU''
   \<and> composed_outcome (str ''x + y. z.'') [(0, 6), (6, 9)] [(0, 1), (4, 5), (7, 8)] no_weights
     (load_promotion_rules [promo_pass]) [(''ATO_X'', [(0, 1)]), (''ATO_Y'', [(4, 5)])] ld_sem_xy
     = Emit (la_hit ''SEM_XY'' ''CLU'' 0 6 1)"
proof -
  have r1: "map_of (load_promotion_rules [promo_xy]) (lm_id ld_sem_xy) = Some promo_xy"
    by (simp add: load_promotion_rules_def promo_xy_def ld_sem_xy_def ld_base_def)
  have g1: "\<not> evaluate_expression (pr_activate_when promo_xy)
              (promo_context
                 (composed_score [(''ATO_X'', [(0, 1)]), (''ATO_Y'', [(4, 5)])] ld_sem_xy)
                 (total_children [(''ATO_X'', [(0, 1)]), (''ATO_Y'', [(4, 5)])] ld_sem_xy))"
    by (simp add: ld_compose_defs)
  have r2: "map_of (load_promotion_rules [promo_pass]) (lm_id ld_sem_xy) = Some promo_pass"
    by (simp add: load_promotion_rules_def promo_pass_def ld_sem_xy_def ld_base_def)
  have "composed_outcome (str ''x + y. z.'') [(0, 6), (6, 9)] [(0, 1), (4, 5), (7, 8)] no_weights
     (load_promotion_rules [promo_xy]) [(''ATO_X'', [(0, 1)]), (''ATO_Y'', [(4, 5)])] ld_sem_xy
     \<noteq> Emit (la_hit ''SEM_XY'' ''SEM'' 0 6 1)"
    using C5_promotion_rule_gates_hit [OF r1] g1 by blast
  moreover have "la_family (la_hit ''SEM_XY'' ''CLU'' 0 6 1) = ''CLU''"
    using C5_promotion_rule_gates_hit [OF r2] outcome_xy_guard_passes
    by (simp add: la_hit_def)
  ultimately show ?thesis using outcome_xy_guard_passes by simp
qed

section \<open>Claims about the composer\<close>




section \<open>Claims about atomic detection\<close>

text \<open>
  Claim C3 (a detect match is dropped iff a demote pattern of its marker fullmatches it or
  a demote match overlaps it). \<^verbatim>\<open>sem_core.detect_atomics\<close> does this
  (\<^verbatim>\<open>detect_atomics_drops_iff\<close>, \<^verbatim>\<open>should_demote_match_iff\<close>).
  \<^verbatim>\<open>LD35Model._pattern_based_detection\<close> never reads \<^verbatim>\<open>demote_if\<close>: on the text
  \<^verbatim>\<open>Hello\<close>, with a marker whose demote pattern fullmatches the hit, it emits the hit that
  \<^verbatim>\<open>sem_core\<close> drops.
\<close>

theorem C3_ld35_ignores_demote:
  "ds_annotations (pattern_based_detection (str ''Hello'') [ld_hello_marker])
     = [la_hit ''ATO_HELLO'' ''ATO'' 0 5 (7/10)]
   \<and> detect_atomics (str ''Hello'') (compile_atomic_regex (Canon [hello_marker])) = []"
  by (simp add: ld_detect_defs ld_hello_marker_def la_hit_def hello_marker_def atomic_defs)




section \<open>Claims about the sentence segmenter\<close>




section \<open>Claims about the bounds of annotations\<close>

text \<open>
  Claim C2 (as stated: for every text and bundle, every annotation of the final output has
  \<^verbatim>\<open>0 \<le> start < end \<le> len(text)\<close>, after every span policy). The bundle
  \<^verbatim>\<open>bundle_fwd\<close> gives its composed marker the policy \<^verbatim>\<open>anchor_window\<close> with
  \<^verbatim>\<open>window_tokens = [1, 8]\<close>; on the text \<^verbatim>\<open>"x y."\<close> the window is (0, 4), the start is moved
  4 characters forward and the end is clipped to the length of the text, so the output holds
  the composed hit (4, 4). In the other engine \<^verbatim>\<open>_detect_annotation_in_text\<close> returns
  the span (0, 0) for a marker whose pattern \<^verbatim>\<open>q\<close> the text does not hold.
\<close>

theorem C2_empty_span_counterexample:
  "annotations (analyze_text (str ''x y.'') bundle_fwd [] no_weights) =
     [hit ''ATO_X'' ''ATO'' 0 1 1, hit ''ATO_Y'' ''ATO'' 2 3 1, hit ''SEM_FWD'' ''SEM'' 4 4 1]
   \<and> \<not> ann_start (hit ''SEM_FWD'' ''SEM'' 4 4 1) < ann_end (hit ''SEM_FWD'' ''SEM'' 4 4 1)
   \<and> la_start (detect_annotation_in_text ''SEM_Q'' ''SEM_Q'' [literal_rx ''q''] (str ''x y.'')) = 0
   \<and> la_end (detect_annotation_in_text ''SEM_Q'' ''SEM_Q'' [literal_rx ''q''] (str ''x y.'')) = 0"
  using analyze_bundle_fwd by (simp add: hit_def literal_rx_def str_def)

text \<open>
  Claim C2, amended: every hit of \<^verbatim>\<open>detect_atomics\<close> has \<^verbatim>\<open>0 \<le> start < end \<le> len(text)\<close>
  when the detect patterns of the bundle report spans that lie inside the text
  (\<^verbatim>\<open>detects_within\<close>, what a regular-expression search does). Every hit of \<^verbatim>\<open>compose\<close>, for
  any bundle and any atomic hits, has \<^verbatim>\<open>0 \<le> start\<close> and \<^verbatim>\<open>end \<le> len(text)\<close>, and it has
  \<^verbatim>\<open>start < end\<close> unless it carries the id of a composed marker whose span policy is an anchor
  window \<^verbatim>\<open>[l, r]\<close> without \<^verbatim>\<open>l \<le> 0 \<le> r\<close> (\<^verbatim>\<open>off_anchor_hit\<close>; the policies
  \<^verbatim>\<open>sentence_union\<close> and \<^verbatim>\<open>clause_union\<close> and the default window \<^verbatim>\<open>[-8, 8]\<close> never are). So
  does every annotation of the final output of \<^verbatim>\<open>analyze_text\<close>. In the other engine
  \<^verbatim>\<open>_detect_annotation_in_text\<close> returns the span (0, 0) whenever none of its patterns is
  found.
\<close>

theorem C2_annotations_within_text:
  "(detects_within t markers
      \<and> a \<in> set (detect_atomics t (compile_atomic_regex (Canon markers)))
      \<longrightarrow> 0 \<le> ann_start a \<and> ann_start a < ann_end a \<and> ann_end a \<le> int (length t))
   \<and> (a \<in> set (compose t (Canon markers) atoms promotion w)
      \<longrightarrow> 0 \<le> ann_start a \<and> ann_end a \<le> int (length t)
          \<and> (ann_start a < ann_end a \<or> off_anchor_hit markers a))
   \<and> (detects_within t markers
      \<and> a \<in> set (annotations (analyze_text t markers promotion w))
      \<longrightarrow> 0 \<le> ann_start a \<and> ann_end a \<le> int (length t)
          \<and> (ann_start a < ann_end a \<or> off_anchor_hit markers a))
   \<and> (list_all (\<lambda>rx. rx_finditer rx t = []) patterns
      \<longrightarrow> la_start (detect_annotation_in_text mid concept patterns t) = 0
          \<and> la_end (detect_annotation_in_text mid concept patterns t) = 0)"
proof (intro conjI impI)
  assume "detects_within t markers
      \<and> a \<in> set (detect_atomics t (compile_atomic_regex (Canon markers)))"
  then have "in_text t a" using detect_atomics_in_text by blast
  then show "0 \<le> ann_start a" and "ann_start a < ann_end a" and "ann_end a \<le> int (length t)"
    by (simp_all add: in_text_def)
next
  assume "a \<in> set (compose t (Canon markers) atoms promotion w)"
  then show "0 \<le> ann_start a" and "ann_end a \<le> int (length t)"
    and "ann_start a < ann_end a \<or> off_anchor_hit markers a"
    using compose_bounds by blast+
next
  assume "detects_within t markers
      \<and> a \<in> set (annotations (analyze_text t markers promotion w))"
  then show "0 \<le> ann_start a" and "ann_end a \<le> int (length t)"
    and "ann_start a < ann_end a \<or> off_anchor_hit markers a"
    using analyze_text_bounds by blast+
next
  assume "list_all (\<lambda>rx. rx_finditer rx t = []) patterns"
  then show "la_start (detect_annotation_in_text mid concept patterns t) = 0"
    and "la_end (detect_annotation_in_text mid concept patterns t) = 0"
    using detect_annotation_no_match by blast+
qed

theorem C2_annotations_within_text_witness:
  "annotations (analyze_text (str ''x + y. z.'') bundle_aw [] no_weights)
     = [hit ''SEM_AW'' ''SEM'' 0 9 1]
   \<and> list_all (in_text (str ''x + y. z.''))
        (annotations (analyze_text (str ''x + y. z.'') bundle_aw [] no_weights))
   \<and> list_all (\<lambda>a. 0 \<le> ann_start a \<and> ann_end a \<le> int (length (str ''x y.'')))
        (annotations (analyze_text (str ''x y.'') bundle_fwd [] no_weights))"
proof -
  have "in_text (str ''x + y. z.'') a"
    if "a \<in> set (annotations (analyze_text (str ''x + y. z.'') bundle_aw [] no_weights))" for a
    using C2_annotations_within_text
      [where t = "str ''x + y. z.''" and markers = bundle_aw and a = a and promotion = "[]"
         and w = no_weights]
      that bundle_aw_within bundle_aw_anchored [of a]
    by (simp add: in_text_def)
  moreover have "0 \<le> ann_start a \<and> ann_end a \<le> int (length (str ''x y.''))"
    if "a \<in> set (annotations (analyze_text (str ''x y.'') bundle_fwd [] no_weights))" for a
    using C2_annotations_within_text
      [where t = "str ''x y.''" and markers = bundle_fwd and a = a and promotion = "[]"
         and w = no_weights]
      that bundle_fwd_within
    by simp
  ultimately show ?thesis
    using analyze_bundle_aw by (simp only: list_all_iff) blast
qed

end
